theory Spec2Isabelle
  imports Main
begin

section \<open>JavaScript values\<close>

text \<open>
  A JavaScript string is a sequence of UTF-16 code units; the regular expressions of the
  two scripts carry no \<open>u\<close> flag, so they work on code units too. \<open>lit\<close> turns an
  ASCII literal of the source into its code units.
\<close>

type_synonym jsstring = "nat list"

definition lit :: "string \<Rightarrow> jsstring" where
  "lit s = map of_char s"

text \<open>
  The result of \<open>JSON.parse\<close>. Only the truthiness of a number is ever read by the
  scripts, so an integer stands for it. An object is the list of its own properties;
  \<open>map_of\<close> reads one. \<open>None\<close> of type \<open>json option\<close> is \<open>undefined\<close>.
\<close>

datatype json =
    JNull
  | JBool bool
  | JNum int
  | JStr jsstring
  | JArr "json list"
  | JObj "(jsstring \<times> json) list"

type_synonym obj = "(jsstring \<times> json) list"

datatype error = TypeError | RangeError | SystemError

text \<open>
  The built-ins of the JavaScript engine that the scripts call, and whose tables (Unicode
  case mapping, locale collation, number formatting) are not part of the repository.
  \<open>ToString\<close> is the conversion of a value that is not a string; \<open>None\<close> is the
  \<open>TypeError\<close> it throws for an object that cannot be converted to a primitive.
\<close>

record platform =
  toLowerCase :: "jsstring \<Rightarrow> jsstring"
  localeCompare :: "jsstring \<Rightarrow> jsstring \<Rightarrow> int"
  ToString :: "json \<Rightarrow> jsstring option"

definition truthy :: "json option \<Rightarrow> bool" where
  "truthy v =
     (case v of
        None \<Rightarrow> False
      | Some JNull \<Rightarrow> False
      | Some (JBool b) \<Rightarrow> b
      | Some (JNum n) \<Rightarrow> n \<noteq> 0
      | Some (JStr s) \<Rightarrow> s \<noteq> []
      | Some (JArr xs) \<Rightarrow> True
      | Some (JObj kv) \<Rightarrow> True)"

text \<open>String conversion as a template literal or a property key performs it.\<close>

definition toStr :: "platform \<Rightarrow> json option \<Rightarrow> error + jsstring" where
  "toStr P v =
     (case v of
        None \<Rightarrow> Inr (lit ''undefined'')
      | Some (JStr s) \<Rightarrow> Inr s
      | Some w \<Rightarrow> (case ToString P w of None \<Rightarrow> Inl TypeError | Some s \<Rightarrow> Inr s))"

text \<open>
  Both scripts keep their categories in an object literal \<open>{}\<close>, which inherits the
  properties of \<open>Object.prototype\<close>: reading \<open>categories[key]\<close> for one of these keys
  yields the inherited function or object, which is truthy, although the key was never stored.
\<close>

definition objectPrototypeKeys :: "jsstring list" where
  "objectPrototypeKeys =
     [lit ''constructor'', lit ''__proto__'', lit ''hasOwnProperty'', lit ''isPrototypeOf'',
      lit ''propertyIsEnumerable'', lit ''toLocaleString'', lit ''toString'', lit ''valueOf'',
      lit ''__defineGetter__'', lit ''__defineSetter__'', lit ''__lookupGetter__'',
      lit ''__lookupSetter__'']"

text \<open>Assigning a property: an existing key keeps its place, a new one goes last.\<close>

fun setProp :: "jsstring \<Rightarrow> 'a \<Rightarrow> (jsstring \<times> 'a) list \<Rightarrow> (jsstring \<times> 'a) list" where
  "setProp k v [] = [(k, v)]"
| "setProp k v ((k', v') # d) = (if k = k' then (k, v) # d else (k', v') # setProp k v d)"

text \<open>
  The order of \<open>Object.entries\<close>, \<open>Object.values\<close> and \<open>for ... in\<close>: the keys that are
  array indices first, in ascending numeric order, then the other keys in insertion order.
\<close>

definition isDigit :: "nat \<Rightarrow> bool" where
  "isDigit c = (48 \<le> c \<and> c \<le> 57)"

definition digitsValue :: "jsstring \<Rightarrow> int" where
  "digitsValue k = foldl (\<lambda>n c. 10 * n + (int c - 48)) 0 k"

definition isArrayIndex :: "jsstring \<Rightarrow> bool" where
  "isArrayIndex k =
     (k \<noteq> [] \<and> list_all isDigit k \<and> (k = [48] \<or> take 1 k \<noteq> [48]) \<and> digitsValue k < 4294967295)"

definition ownEntries :: "(jsstring \<times> 'a) list \<Rightarrow> (jsstring \<times> 'a) list" where
  "ownEntries d =
     sort_key (\<lambda>kv. digitsValue (fst kv)) (filter (\<lambda>kv. isArrayIndex (fst kv)) d)
     @ filter (\<lambda>kv. \<not> isArrayIndex (fst kv)) d"

fun decimal :: "nat \<Rightarrow> jsstring" where
  "decimal n = (if n < 10 then [48 + n] else decimal (n div 10) @ [48 + n mod 10])"

text \<open>
  The spread \<open>{...metadata}\<close> copies the own enumerable properties: those of an object,
  the indexed elements of an array, the indexed characters of a string, and nothing of
  \<open>null\<close>, a boolean or a number.
\<close>

definition spread :: "json \<Rightarrow> obj" where
  "spread v =
     (case v of
        JObj kv \<Rightarrow> kv
      | JArr xs \<Rightarrow> zip (map decimal [0..<length xs]) xs
      | JStr s \<Rightarrow> zip (map decimal [0..<length s]) (map (\<lambda>c. JStr [c]) s)
      | JNull \<Rightarrow> []
      | JBool b \<Rightarrow> []
      | JNum n \<Rightarrow> [])"

section \<open>Array.prototype.sort with a comparator that may throw\<close>

text \<open>
  A stable insertion sort: each element is compared, as first argument, with the elements
  already placed, and goes in front of the first one it is smaller than. An array of one
  element is never compared. The first exception of the comparator ends the sort.
\<close>

fun insertBy :: "('a \<Rightarrow> 'a \<Rightarrow> error + int) \<Rightarrow> 'a \<Rightarrow> 'a list \<Rightarrow> error + 'a list" where
  "insertBy cmp x [] = Inr [x]"
| "insertBy cmp x (y # ys) =
     (case cmp x y of
        Inl e \<Rightarrow> Inl e
      | Inr n \<Rightarrow>
          if n < 0 then Inr (x # y # ys)
          else (case insertBy cmp x ys of Inl e \<Rightarrow> Inl e | Inr zs \<Rightarrow> Inr (y # zs)))"

fun sortInto :: "('a \<Rightarrow> 'a \<Rightarrow> error + int) \<Rightarrow> 'a list \<Rightarrow> 'a list \<Rightarrow> error + 'a list" where
  "sortInto cmp acc [] = Inr acc"
| "sortInto cmp acc (x # xs) =
     (case insertBy cmp x acc of Inl e \<Rightarrow> Inl e | Inr acc' \<Rightarrow> sortInto cmp acc' xs)"

definition arraySort :: "('a \<Rightarrow> 'a \<Rightarrow> error + int) \<Rightarrow> 'a list \<Rightarrow> error + 'a list" where
  "arraySort cmp xs = sortInto cmp [] xs"

text \<open>
  The comparator \<open>(a, b) => a.name.localeCompare(b.name)\<close>, on the two \<open>name\<close> values:
  the method exists on a string only, and converts its argument to a string.
\<close>

definition compareNames :: "platform \<Rightarrow> json option \<Rightarrow> json option \<Rightarrow> error + int" where
  "compareNames P a b =
     (case a of
        Some (JStr s) \<Rightarrow>
          (case toStr P b of Inl e \<Rightarrow> Inl e | Inr t \<Rightarrow> Inr (localeCompare P s t))
      | _ \<Rightarrow> Inl TypeError)"

fun mapE :: "('a \<Rightarrow> error + 'b) \<Rightarrow> 'a list \<Rightarrow> error + 'b list" where
  "mapE f [] = Inr []"
| "mapE f (x # xs) =
     (case f x of
        Inl e \<Rightarrow> Inl e
      | Inr y \<Rightarrow> (case mapE f xs of Inl e \<Rightarrow> Inl e | Inr ys \<Rightarrow> Inr (y # ys)))"

section \<open>Category slugs\<close>

definition isAlnum :: "nat \<Rightarrow> bool" where
  "isAlnum c = ((97 \<le> c \<and> c \<le> 122) \<or> (48 \<le> c \<and> c \<le> 57))"

text \<open>
  \<open>replace(/[^a-z0-9]+/g, '-')\<close> of generate-category-all.json.js: a match starts at a
  character outside the class and, being greedy, takes the whole run.
\<close>

function replaceRuns :: "jsstring \<Rightarrow> jsstring" where
  "replaceRuns [] = []"
| "replaceRuns (c # cs) =
     (if isAlnum c then c # replaceRuns cs
      else 45 # replaceRuns (dropWhile (\<lambda>d. \<not> isAlnum d) cs))"
  by pat_completeness auto
termination
  by (relation "measure length") (auto simp: less_Suc_eq_le length_dropWhile_le)

text \<open>\<open>replace(/[^a-z0-9]/g, '-')\<close> of generate-releases.js: every match is one character.\<close>

fun replaceEach :: "jsstring \<Rightarrow> jsstring" where
  "replaceEach [] = []"
| "replaceEach (c # cs) = (if isAlnum c then c else 45) # replaceEach cs"

definition slugAll :: "platform \<Rightarrow> jsstring \<Rightarrow> jsstring" where
  "slugAll P categoryName = replaceRuns (toLowerCase P categoryName)"

definition categorySlug :: "platform \<Rightarrow> jsstring \<Rightarrow> jsstring" where
  "categorySlug P category = replaceEach (toLowerCase P category)"

text \<open>
  The wording of the specification, for comparison: the string is cut into its maximal runs
  of characters of one kind, and every run of non-alphanumeric characters becomes one hyphen.
\<close>

fun runs :: "jsstring \<Rightarrow> jsstring list" where
  "runs [] = []"
| "runs (c # cs) =
     (case runs cs of
        [] \<Rightarrow> [[c]]
      | r # rs \<Rightarrow> if isAlnum c = list_all isAlnum r then (c # r) # rs else [c] # r # rs)"

definition collapseRuns :: "jsstring \<Rightarrow> jsstring" where
  "collapseRuns s = concat (map (\<lambda>r. if list_all isAlnum r then r else [45]) (runs s))"

definition isSlugChar :: "nat \<Rightarrow> bool" where
  "isSlugChar c = (isAlnum c \<or> c = 45)"

section \<open>The world outside the scripts\<close>

text \<open>
  What \<open>git log -1 --format=%ct --follow -- "<path>"\<close> printed, trimmed: nothing, or a
  line, given by what \<open>parseInt\<close> reads from it (\<open>None\<close> is \<open>NaN\<close>).
\<close>

datatype log_stdout = Blank | Line "int option"

text \<open>
  One run's view of the outside. \<open>gitStatus\<close> is \<open>Inr True\<close> when
  \<open>git status --porcelain "<path>"\<close> printed something, and \<open>Inl\<close> when \<open>execSync\<close>
  threw. \<open>clock\<close> is the value of \<open>Math.floor(Date.now() / 1000)\<close> while the timestamp
  of that path is resolved, \<open>generatedAt\<close> the same when the consolidated document is built.
  The remaining fields say which file-system calls on the releases directory throw.
\<close>

record env =
  gitStatus :: "jsstring \<Rightarrow> error + bool"
  gitLog :: "jsstring \<Rightarrow> error + log_stdout"
  clock :: "jsstring \<Rightarrow> int"
  generatedAt :: int
  writeFails :: "jsstring \<Rightarrow> bool"
  unlinkFails :: "jsstring \<Rightarrow> bool"
  mkdirFails :: bool
  readdirFails :: bool

text \<open>
  \<open>new Date(t * 1000).toISOString()\<close>, which the scripts call for their log lines, throws
  a \<open>RangeError\<close> outside the range of time values.
\<close>

definition validDate :: "int \<Rightarrow> bool" where
  "validDate t = (\<bar>t * 1000\<bar> \<le> 8640000000000000)"

definition toISOString :: "int \<Rightarrow> error + unit" where
  "toISOString t = (if validDate t then Inr () else Inl RangeError)"

text \<open>The fallback shared by both resolvers: the current time, logged as a date.\<close>

definition currentTime :: "env \<Rightarrow> jsstring \<Rightarrow> error + int" where
  "currentTime E p = (case toISOString (clock E p) of Inl e \<Rightarrow> Inl e | Inr u \<Rightarrow> Inr (clock E p))"

text \<open>The \<open>git log\<close> query and what follows it inside the \<open>try\<close> block of either resolver.\<close>

definition logTimestamp :: "env \<Rightarrow> jsstring \<Rightarrow> error + int" where
  "logTimestamp E p =
     (case gitLog E p of
        Inl e \<Rightarrow> Inl e
      | Inr Blank \<Rightarrow> currentTime E p
      | Inr (Line None) \<Rightarrow> Inl RangeError
      | Inr (Line (Some t)) \<Rightarrow>
          (case toISOString t of Inl e \<Rightarrow> Inl e | Inr u \<Rightarrow> Inr t))"

text \<open>generate-category-all.json.js, lines 8-40.\<close>

definition getLastCommitTimestampForMetadataFile :: "env \<Rightarrow> jsstring \<Rightarrow> error + int" where
  "getLastCommitTimestampForMetadataFile E filePath =
     (case logTimestamp E filePath of
        Inr t \<Rightarrow> Inr t
      | Inl e \<Rightarrow> currentTime E filePath)"

text \<open>
  generate-releases.js, lines 8-74. The function asks for the release file of the category;
  its second parameter, the category map, is never read. The status query has a
  \<open>try\<close> of its own, whose handler only logs: after a failed query the function
  goes on to \<open>git log\<close>.
\<close>

definition categoryFilePath :: "platform \<Rightarrow> jsstring \<Rightarrow> jsstring" where
  "categoryFilePath P category = lit ''releases/category-'' @ categorySlug P category @ lit ''.json''"

definition uncommittedChanges :: "env \<Rightarrow> jsstring \<Rightarrow> int option" where
  "uncommittedChanges E p =
     (case gitStatus E p of
        Inl e \<Rightarrow> None
      | Inr False \<Rightarrow> None
      | Inr True \<Rightarrow> (case currentTime E p of Inl e \<Rightarrow> None | Inr t \<Rightarrow> Some t))"

definition getLastCommitTimestampForCategory :: "platform \<Rightarrow> env \<Rightarrow> jsstring \<Rightarrow> error + int" where
  "getLastCommitTimestampForCategory P E category =
     (let p = categoryFilePath P category in
      case uncommittedChanges E p of
        Some t \<Rightarrow> Inr t
      | None \<Rightarrow>
          (case logTimestamp E p of
             Inr t \<Rightarrow> Inr t
           | Inl e \<Rightarrow> currentTime E p))"

section \<open>The repositories tree\<close>

text \<open>
  A file is given by what reading and parsing it yields (\<open>None\<close> when \<open>readFileSync\<close> or
  \<open>JSON.parse\<close> throws). \<open>Locked\<close> is a directory that cannot be listed, \<open>Dangling\<close> an
  entry that is neither a file nor a directory that can be opened (a dangling link).
\<close>

datatype node =
    File "json option"
  | Dir "(jsstring \<times> node) list"
  | Locked
  | Dangling

record input =
  repositoriesDir :: jsstring
  repositories :: "node option"
  categoriesJson :: "json option"

definition pathJoin :: "jsstring \<Rightarrow> jsstring \<Rightarrow> jsstring" where
  "pathJoin a b = (if a = [] then b else a @ [47] @ b)"

definition normalizeSeparators :: "jsstring \<Rightarrow> jsstring" where
  "normalizeSeparators p = map (\<lambda>c. if c = 92 then 47 else c) p"

definition dirname :: "jsstring \<Rightarrow> jsstring" where
  "dirname p =
     (if 47 \<notin> set p then lit ''.''
      else let d = rev (drop 1 (dropWhile (\<lambda>c. c \<noteq> 47) (rev p)))
           in if d = [] then lit ''/'' else d)"

text \<open>
  generate-category-all.json.js, lines 43-70. The file's content stands for the later
  \<open>readFileSync\<close> of its full path. An exception inside the loop (from \<open>statSync\<close>) is
  caught around the loop: the files found so far in this directory are kept.
\<close>

record metadataFile =
  relativePath :: jsstring
  directoryPath :: jsstring
  content :: "json option"

fun findAllMetadataFiles :: "node \<Rightarrow> jsstring \<Rightarrow> metadataFile list"
  and findAllItems :: "(jsstring \<times> node) list \<Rightarrow> jsstring \<Rightarrow> metadataFile list" where
  "findAllMetadataFiles (Dir items) basePath = findAllItems items basePath"
| "findAllMetadataFiles (File c) basePath = []"
| "findAllMetadataFiles Locked basePath = []"
| "findAllMetadataFiles Dangling basePath = []"
| "findAllItems [] basePath = []"
| "findAllItems ((item, n) # rest) basePath =
     (case n of
        Dangling \<Rightarrow> []
      | File c \<Rightarrow>
          (if item = lit ''metadata.json''
           then [\<lparr>relativePath = pathJoin basePath item, directoryPath = basePath, content = c\<rparr>]
           else []) @ findAllItems rest basePath
      | Dir sub \<Rightarrow> findAllMetadataFiles n (pathJoin basePath item) @ findAllItems rest basePath
      | Locked \<Rightarrow> findAllMetadataFiles n (pathJoin basePath item) @ findAllItems rest basePath)"

text \<open>
  generate-releases.js, lines 77-98: no handler here, an unreadable directory ends the run.
  Each path comes with the content that \<open>loadMetadata\<close> will read there.
\<close>

fun findMetadataFiles :: "jsstring \<Rightarrow> node \<Rightarrow> error + (jsstring \<times> json option) list"
  and findItems :: "jsstring \<Rightarrow> (jsstring \<times> node) list \<Rightarrow> error + (jsstring \<times> json option) list" where
  "findMetadataFiles dir (Dir items) = findItems dir items"
| "findMetadataFiles dir (File c) = Inl SystemError"
| "findMetadataFiles dir Locked = Inl SystemError"
| "findMetadataFiles dir Dangling = Inl SystemError"
| "findItems dir [] = Inr []"
| "findItems dir ((name, n) # rest) =
     (case n of
        Dir sub \<Rightarrow>
          (case findMetadataFiles (pathJoin dir name) n of
             Inl e \<Rightarrow> Inl e
           | Inr xs \<Rightarrow> (case findItems dir rest of Inl e \<Rightarrow> Inl e | Inr ys \<Rightarrow> Inr (xs @ ys)))
      | Locked \<Rightarrow> Inl SystemError
      | File c \<Rightarrow>
          (case findItems dir rest of
             Inl e \<Rightarrow> Inl e
           | Inr ys \<Rightarrow>
               Inr ((if name = lit ''metadata.json'' then [(pathJoin dir name, c)] else []) @ ys))
      | Dangling \<Rightarrow>
          (case findItems dir rest of
             Inl e \<Rightarrow> Inl e
           | Inr ys \<Rightarrow>
               Inr ((if name = lit ''metadata.json'' then [(pathJoin dir name, None)] else []) @ ys)))"

section \<open>Output documents and the releases directory\<close>

text \<open>
  An app of the consolidated document is \<open>{...metadata, slug, lastUpdated, metadataPath}\<close>:
  \<open>appMeta\<close> holds the spread properties, and the three fields written after the spread
  replace properties of the same names. \<open>name\<close> and \<open>category\<close> are read from \<open>appMeta\<close>.
\<close>

record app =
  appMeta :: obj
  appSlug :: jsstring
  lastUpdated :: int
  metadataPath :: jsstring

record category =
  name :: jsstring
  slug :: jsstring
  count :: nat
  apps :: "app list"

text \<open>\<open>Math.max\<close> of no argument is \<open>-Infinity\<close>, here \<open>None\<close>.\<close>

record datedCategory = category +
  categoryLastUpdated :: "int option"

record categoryAllData =
  generated :: int
  allTotalCategories :: nat
  allTotalApps :: nat
  allCategories :: "datedCategory list"

record releaseData =
  releaseCategory :: jsstring
  releaseCount :: nat
  releaseApps :: "obj list"

record categoryData =
  cdName :: jsstring
  cdSlug :: jsstring
  cdCount :: nat
  cdLastUpdated :: int

record categoriesData =
  totalCategories :: nat
  totalApps :: nat
  categories :: "categoryData list"

text \<open>
  The content of a file of the releases directory: one of the three documents the scripts
  write, or anything else that was there before the run.
\<close>

datatype doc =
    CategoryAllDoc categoryAllData
  | ReleaseDoc releaseData
  | CategoriesDoc categoriesData
  | OtherDoc nat

type_synonym releases = "(jsstring \<times> doc) list"

text \<open>
  What a run leaves behind: the exit code of the process, the files \<open>writeFileSync\<close> wrote
  and \<open>unlinkSync\<close> removed, in order, and the releases directory (\<open>None\<close> when it does
  not exist).
\<close>

record outcome =
  exitCode :: nat
  written :: "(jsstring \<times> doc) list"
  removed :: "jsstring list"
  releasesAfter :: "releases option"

definition putFile :: "jsstring \<Rightarrow> doc \<Rightarrow> releases \<Rightarrow> releases" where
  "putFile f d fs = (f, d) # filter (\<lambda>e. fst e \<noteq> f) fs"

section \<open>generate-category-all.json.js\<close>

text \<open>Lines 98-101: the directory path without its first component.\<close>

definition slugOfDirectory :: "jsstring \<Rightarrow> jsstring" where
  "slugOfDirectory dp = drop 1 (dropWhile (\<lambda>c. c \<noteq> 47) dp)"

text \<open>
  The body of the loop of \<open>readAllMetadataFiles\<close>, lines 88-116: \<open>None\<close> when the
  handler of the loop caught an exception before \<open>apps.push\<close>. The log line after the
  push (which throws for \<open>null\<close>) is caught too and changes nothing.
\<close>

definition readMetadataFile :: "env \<Rightarrow> metadataFile \<Rightarrow> app option" where
  "readMetadataFile E metadataFile =
     (case content metadataFile of
        None \<Rightarrow> None
      | Some metadata \<Rightarrow>
          (case getLastCommitTimestampForMetadataFile E (relativePath metadataFile) of
             Inl e \<Rightarrow> None
           | Inr t \<Rightarrow>
               Some \<lparr>appMeta = spread metadata,
                     appSlug = slugOfDirectory (directoryPath metadataFile),
                     lastUpdated = t,
                     metadataPath = normalizeSeparators (relativePath metadataFile)\<rparr>))"

definition readAllMetadataFiles :: "env \<Rightarrow> node option \<Rightarrow> app list" where
  "readAllMetadataFiles E root =
     (case root of
        None \<Rightarrow> []
      | Some n \<Rightarrow> List.map_filter (readMetadataFile E) (findAllMetadataFiles n (lit ''repositories'')))"

text \<open>\<open>app.category || 'Uncategorized'\<close>\<close>

definition categoryNameOf :: "app \<Rightarrow> json" where
  "categoryNameOf a =
     (if truthy (map_of (appMeta a) (lit ''category''))
      then (case map_of (appMeta a) (lit ''category'') of Some v \<Rightarrow> v | None \<Rightarrow> JNull)
      else JStr (lit ''Uncategorized''))"

text \<open>
  One turn of the first loop of \<open>organizeAppsByCategory\<close>, lines 125-139. The category
  name is used as a property key, so it is converted to a string. A category that exists
  takes the app. An inherited key passes for an existing category, and the \<open>push\<close> on its
  missing \<open>apps\<close> throws. Otherwise the category is created, which calls \<open>toLowerCase\<close>
  on the name and throws unless the name is a string.
\<close>

definition addApp :: "platform \<Rightarrow> (jsstring \<times> category) list \<Rightarrow> app \<Rightarrow> error + (jsstring \<times> category) list" where
  "addApp P cats a =
     (case toStr P (Some (categoryNameOf a)) of
        Inl e \<Rightarrow> Inl e
      | Inr key \<Rightarrow>
          (case map_of cats key of
             Some c \<Rightarrow> Inr (setProp key (c\<lparr>count := count c + 1, apps := apps c @ [a]\<rparr>) cats)
           | None \<Rightarrow>
               if key \<in> set objectPrototypeKeys then Inl TypeError
               else (case categoryNameOf a of
                       JStr categoryName \<Rightarrow>
                         Inr (cats @ [(key, \<lparr>name = categoryName, slug = slugAll P categoryName,
                                              count = 1, apps = [a]\<rparr>)])
                     | _ \<Rightarrow> Inl TypeError)))"

fun addApps :: "platform \<Rightarrow> (jsstring \<times> category) list \<Rightarrow> app list \<Rightarrow> error + (jsstring \<times> category) list" where
  "addApps P cats [] = Inr cats"
| "addApps P cats (a # rest) =
     (case addApp P cats a of Inl e \<Rightarrow> Inl e | Inr cats' \<Rightarrow> addApps P cats' rest)"

text \<open>Lines 142-144, for one category.\<close>

definition sortCategoryApps :: "platform \<Rightarrow> jsstring \<times> category \<Rightarrow> error + jsstring \<times> category" where
  "sortCategoryApps P kc =
     (case arraySort (\<lambda>a b. compareNames P (map_of (appMeta a) (lit ''name''))
                                            (map_of (appMeta b) (lit ''name''))) (apps (snd kc)) of
        Inl e \<Rightarrow> Inl e
      | Inr as \<Rightarrow> Inr (fst kc, (snd kc)\<lparr>apps := as\<rparr>))"

text \<open>
  Every exception of this function is a \<open>TypeError\<close>, so the order in which the second
  loop visits the categories does not show in the result.
\<close>

definition organizeAppsByCategory :: "platform \<Rightarrow> app list \<Rightarrow> error + (jsstring \<times> category) list" where
  "organizeAppsByCategory P as =
     (case addApps P [] as of
        Inl e \<Rightarrow> Inl e
      | Inr cats \<Rightarrow> mapE (sortCategoryApps P) cats)"

fun mathMax :: "int list \<Rightarrow> int option" where
  "mathMax [] = None"
| "mathMax (x # xs) = Some (fold max xs x)"

definition getCategoryLastUpdated :: "app list \<Rightarrow> int option" where
  "getCategoryLastUpdated as = mathMax (map lastUpdated as)"

definition withLastUpdated :: "category \<Rightarrow> datedCategory" where
  "withLastUpdated c = category.extend c \<lparr>categoryLastUpdated = getCategoryLastUpdated (apps c)\<rparr>"

text \<open>The names of two categories are strings: this comparator does not throw.\<close>

definition compareCategories :: "platform \<Rightarrow> datedCategory \<Rightarrow> datedCategory \<Rightarrow> error + int" where
  "compareCategories P a b = Inr (localeCompare P (name a) (name b))"

text \<open>
  The summary printed after the write, lines 203-205, inside the same \<open>try\<close>: the date of
  each category is formatted.
\<close>

definition summaryLine :: "datedCategory \<Rightarrow> error + unit" where
  "summaryLine c =
     (case categoryLastUpdated c of None \<Rightarrow> Inl RangeError | Some t \<Rightarrow> toISOString t)"

text \<open>
  \<open>writeFileSync\<close> into the releases directory: it throws when the directory does not
  exist or when the outside world refuses the write.
\<close>

definition writeFileSync :: "env \<Rightarrow> jsstring \<Rightarrow> doc \<Rightarrow> releases option \<Rightarrow> error + releases" where
  "writeFileSync E f d rel =
     (case rel of
        None \<Rightarrow> Inl SystemError
      | Some fs \<Rightarrow> if writeFails E f then Inl SystemError else Inr (putFile f d fs))"

text \<open>
  \<open>main\<close> with the handler \<open>main().catch(... process.exit(1))\<close>, lines 155-218. The
  field \<open>generatedISO\<close> of the document repeats \<open>generated\<close> as text and is left out.
\<close>

definition mainAll :: "platform \<Rightarrow> env \<Rightarrow> input \<Rightarrow> releases option \<Rightarrow> outcome" where
  "mainAll P E inp rel =
     (let as = readAllMetadataFiles E (repositories inp) in
      if as = [] then \<lparr>exitCode = 0, written = [], removed = [], releasesAfter = rel\<rparr>
      else
        (case organizeAppsByCategory P as of
           Inl e \<Rightarrow> \<lparr>exitCode = 1, written = [], removed = [], releasesAfter = rel\<rparr>
         | Inr categoriesMap \<Rightarrow>
             (case arraySort (compareCategories P)
                     (map (\<lambda>kc. withLastUpdated (snd kc)) (ownEntries categoriesMap)) of
                Inl e \<Rightarrow> \<lparr>exitCode = 1, written = [], removed = [], releasesAfter = rel\<rparr>
              | Inr categoriesArray \<Rightarrow>
                  (let d = CategoryAllDoc
                             \<lparr>generated = generatedAt E,
                              allTotalCategories = length categoriesArray,
                              allTotalApps = length as,
                              allCategories = categoriesArray\<rparr>
                   in case writeFileSync E (lit ''category-all.json'') d rel of
                        Inl e \<Rightarrow> \<lparr>exitCode = 1, written = [], removed = [], releasesAfter = rel\<rparr>
                      | Inr fs \<Rightarrow>
                          (case mapE summaryLine categoriesArray of
                             Inl e \<Rightarrow> \<lparr>exitCode = 1, written = [(lit ''category-all.json'', d)],
                                        removed = [], releasesAfter = Some fs\<rparr>
                           | Inr u \<Rightarrow> \<lparr>exitCode = 0, written = [(lit ''category-all.json'', d)],
                                        removed = [], releasesAfter = Some fs\<rparr>)))))"

section \<open>generate-releases.js\<close>

definition requiredFields :: "jsstring list" where
  "requiredFields =
     [lit ''name'', lit ''category'', lit ''description'', lit ''version'', lit ''commit'',
      lit ''owner'', lit ''repo'', lit ''path'']"

text \<open>
  The test of line 109, negated: the field is there, and is neither \<open>null\<close> nor the
  empty string.
\<close>

definition fieldPresent :: "obj \<Rightarrow> jsstring \<Rightarrow> bool" where
  "fieldPresent metadata field =
     (case map_of metadata field of
        None \<Rightarrow> False
      | Some JNull \<Rightarrow> False
      | Some (JStr s) \<Rightarrow> s \<noteq> []
      | Some (JBool b) \<Rightarrow> True
      | Some (JNum n) \<Rightarrow> True
      | Some (JArr xs) \<Rightarrow> True
      | Some (JObj kv) \<Rightarrow> True)"

text \<open>
  \<open>loadMetadata\<close>, lines 101-123; \<open>None\<close> is its \<open>null\<close>. The operator \<open>in\<close> throws
  for a value that is not an object (caught: \<open>null\<close>), and finds no field in an array.
\<close>

definition loadMetadata :: "jsstring \<Rightarrow> json option \<Rightarrow> obj option" where
  "loadMetadata filePath c =
     (case c of
        None \<Rightarrow> None
      | Some (JObj metadata) \<Rightarrow>
          if list_all (fieldPresent metadata) requiredFields
          then Some (setProp (lit ''filePath'') (JStr (normalizeSeparators (dirname filePath))) metadata)
          else None
      | Some (JArr xs) \<Rightarrow> None
      | Some JNull \<Rightarrow> None
      | Some (JBool b) \<Rightarrow> None
      | Some (JNum n) \<Rightarrow> None
      | Some (JStr s) \<Rightarrow> None)"

text \<open>
  \<open>loadValidCategories\<close> and the log line \<open>validCategories.join(', ')\<close> of line 143:
  only an array has \<open>join\<close>, which converts every element but \<open>null\<close> to a string.
\<close>

definition loadValidCategories :: "json option \<Rightarrow> json" where
  "loadValidCategories c = (case c of None \<Rightarrow> JArr [] | Some v \<Rightarrow> v)"

definition joinValidCategories :: "platform \<Rightarrow> json \<Rightarrow> error + jsstring list" where
  "joinValidCategories P v =
     (case v of
        JArr xs \<Rightarrow> mapE (\<lambda>x. case x of JNull \<Rightarrow> Inr [] | _ \<Rightarrow> toStr P (Some x)) xs
      | _ \<Rightarrow> Inl TypeError)"

text \<open>
  The loop of lines 160-178. The log line of line 165 converts the name and the category
  to strings; the category is then the property key. For an inherited key the test of
  line 167 finds something, and \<open>push\<close> is not a function of it.
\<close>

definition addMetadata :: "platform \<Rightarrow> (jsstring \<times> obj list) list \<Rightarrow> obj \<Rightarrow> error + (jsstring \<times> obj list) list" where
  "addMetadata P categorizedApps metadata =
     (case toStr P (map_of metadata (lit ''name'')) of
        Inl e \<Rightarrow> Inl e
      | Inr n \<Rightarrow>
          (case toStr P (map_of metadata (lit ''category'')) of
             Inl e \<Rightarrow> Inl e
           | Inr key \<Rightarrow>
               (case map_of categorizedApps key of
                  Some as \<Rightarrow> Inr (setProp key (as @ [metadata]) categorizedApps)
                | None \<Rightarrow>
                    if key \<in> set objectPrototypeKeys then Inl TypeError
                    else Inr (categorizedApps @ [(key, [metadata])]))))"

fun categorize :: "platform \<Rightarrow> (jsstring \<times> obj list) list \<Rightarrow> (jsstring \<times> json option) list \<Rightarrow> error + (jsstring \<times> obj list) list" where
  "categorize P categorizedApps [] = Inr categorizedApps"
| "categorize P categorizedApps ((filePath, c) # rest) =
     (case loadMetadata filePath c of
        None \<Rightarrow> categorize P categorizedApps rest
      | Some metadata \<Rightarrow>
          (case addMetadata P categorizedApps metadata of
             Inl e \<Rightarrow> Inl e
           | Inr categorizedApps' \<Rightarrow> categorize P categorizedApps' rest))"

definition releaseFileName :: "platform \<Rightarrow> jsstring \<Rightarrow> jsstring" where
  "releaseFileName P c = lit ''category-'' @ categorySlug P c @ lit ''.json''"

definition strippedKeys :: "jsstring list" where
  "strippedKeys =
     [lit ''commit'', lit ''owner'', lit ''repo'', lit ''path'', lit ''filePath'',
      lit ''category'', lit ''files'']"

text \<open>
  The callback of lines 200-217. The rest of the destructuring keeps every property but
  seven; the template literal of the slug converts three values to strings.
\<close>

definition cleanApp :: "platform \<Rightarrow> obj \<Rightarrow> error + obj" where
  "cleanApp P a =
     (case toStr P (map_of a (lit ''owner'')) of
        Inl e \<Rightarrow> Inl e
      | Inr owner \<Rightarrow>
     (case toStr P (map_of a (lit ''repo'')) of
        Inl e \<Rightarrow> Inl e
      | Inr repo \<Rightarrow>
     (case toStr P (map_of a (lit ''name'')) of
        Inl e \<Rightarrow> Inl e
      | Inr n \<Rightarrow>
          (let rest = filter (\<lambda>kv. fst kv \<notin> set strippedKeys) a;
               c1 = setProp (lit ''slug'') (JStr (owner @ lit ''/'' @ repo @ lit ''/'' @ n)) rest;
               isTheme = (map_of a (lit ''category'') = Some (JStr (lit ''Themes'')));
               c2 = (case map_of a (lit ''supported-devices'') of
                       Some v \<Rightarrow>
                         if truthy (Some v) \<and> \<not> isTheme
                         then setProp (lit ''supported-devices'') v c1 else c1
                     | None \<Rightarrow> c1);
               c3 = (case map_of a (lit ''supported-screen-size'') of
                       Some v \<Rightarrow>
                         if truthy (Some v) \<and> isTheme
                         then setProp (lit ''supported-screen-size'') v c2 else c2
                     | None \<Rightarrow> c2)
           in Inr c3))))"

text \<open>The state of the loop of lines 192-234.\<close>

record progress =
  releasesNow :: releases
  releaseFiles :: "jsstring list"
  categoriesWithReleases :: "jsstring list"
  writtenSoFar :: "(jsstring \<times> doc) list"

text \<open>
  One turn of that loop. The sort and the callback may throw, which ends the run; a
  failed write is caught and logged, and the loop goes on.
\<close>

definition generateRelease :: "platform \<Rightarrow> env \<Rightarrow> progress \<Rightarrow> jsstring \<times> obj list \<Rightarrow> error + progress" where
  "generateRelease P E st entry =
     (case arraySort (\<lambda>a b. compareNames P (map_of a (lit ''name'')) (map_of b (lit ''name'')))
             (snd entry) of
        Inl e \<Rightarrow> Inl e
      | Inr as \<Rightarrow>
          (case mapE (cleanApp P) as of
             Inl e \<Rightarrow> Inl e
           | Inr filteredApps \<Rightarrow>
               (let f = releaseFileName P (fst entry);
                    d = ReleaseDoc \<lparr>releaseCategory = fst entry, releaseCount = length as,
                                     releaseApps = filteredApps\<rparr>
                in case writeFileSync E f d (Some (releasesNow st)) of
                     Inl e \<Rightarrow> Inr st
                   | Inr fs \<Rightarrow>
                       Inr \<lparr>releasesNow = fs,
                            releaseFiles = releaseFiles st @ [f],
                            categoriesWithReleases = categoriesWithReleases st @ [fst entry],
                            writtenSoFar = writtenSoFar st @ [(f, d)]\<rparr>)))"

fun generateReleases :: "platform \<Rightarrow> env \<Rightarrow> progress \<Rightarrow> (jsstring \<times> obj list) list \<Rightarrow> progress \<times> error option" where
  "generateReleases P E st [] = (st, None)"
| "generateReleases P E st (entry # rest) =
     (case generateRelease P E st entry of
        Inl e \<Rightarrow> (st, Some e)
      | Inr st' \<Rightarrow> generateReleases P E st' rest)"

text \<open>The callback of lines 241-258, with the date of the log line of line 247.\<close>

definition categoryDataOf :: "platform \<Rightarrow> env \<Rightarrow> (jsstring \<times> obj list) list \<Rightarrow> jsstring \<Rightarrow> error + categoryData" where
  "categoryDataOf P E categorizedApps c =
     (case getLastCommitTimestampForCategory P E c of
        Inl e \<Rightarrow> Inl e
      | Inr t \<Rightarrow>
          (case toISOString t of
             Inl e \<Rightarrow> Inl e
           | Inr u \<Rightarrow>
               (case map_of categorizedApps c of
                  None \<Rightarrow> Inl TypeError
                | Some as \<Rightarrow>
                    Inr \<lparr>cdName = c, cdSlug = categorySlug P c, cdCount = length as,
                         cdLastUpdated = t\<rparr>)))"

text \<open>Lines 237-273: the index, written when at least one category file was.\<close>

definition writeCategories :: "platform \<Rightarrow> env \<Rightarrow> (jsstring \<times> obj list) list \<Rightarrow> progress \<Rightarrow> error + progress" where
  "writeCategories P E categorizedApps st =
     (if categoriesWithReleases st = [] then Inr st
      else
        (case mapE (categoryDataOf P E categorizedApps) (categoriesWithReleases st) of
           Inl e \<Rightarrow> Inl e
         | Inr cds \<Rightarrow>
             (case arraySort (\<lambda>a b. Inr (localeCompare P (cdName a) (cdName b))) cds of
                Inl e \<Rightarrow> Inl e
              | Inr categoriesWithCounts \<Rightarrow>
                  (let d = CategoriesDoc
                             \<lparr>totalCategories = length (categoriesWithReleases st),
                              totalApps = sum_list (map (\<lambda>kv. length (snd kv)) categorizedApps),
                              categories = categoriesWithCounts\<rparr>
                   in case writeFileSync E (lit ''categories.json'') d (Some (releasesNow st)) of
                        Inl e \<Rightarrow> Inr st
                      | Inr fs \<Rightarrow>
                          Inr (st\<lparr>releasesNow := fs,
                                  writtenSoFar := writtenSoFar st @ [(lit ''categories.json'', d)]\<rparr>)))))"

definition startsWith :: "jsstring \<Rightarrow> jsstring \<Rightarrow> bool" where
  "startsWith s p = (take (length p) s = p)"

definition endsWith :: "jsstring \<Rightarrow> jsstring \<Rightarrow> bool" where
  "endsWith s q = (length q \<le> length s \<and> drop (length s - length q) s = q)"

text \<open>Lines 276-277.\<close>

definition existingReleaseFiles :: "releases \<Rightarrow> jsstring list" where
  "existingReleaseFiles fs =
     filter (\<lambda>f. startsWith f (lit ''category-'') \<and> endsWith f (lit ''.json'')) (map fst fs)"

text \<open>Lines 279-288: a failed \<open>unlinkSync\<close> is caught and logged.\<close>

fun removeObsolete :: "env \<Rightarrow> jsstring list \<Rightarrow> jsstring list \<Rightarrow> releases \<times> jsstring list \<Rightarrow> releases \<times> jsstring list" where
  "removeObsolete E kept [] acc = acc"
| "removeObsolete E kept (f # rest) acc =
     (if f \<in> set kept \<or> unlinkFails E f then removeObsolete E kept rest acc
      else removeObsolete E kept rest (filter (\<lambda>e. fst e \<noteq> f) (fst acc), snd acc @ [f]))"

text \<open>Lines 146-147, with the test of line 80 for the repositories directory itself.\<close>

definition foundFiles :: "input \<Rightarrow> error + (jsstring \<times> json option) list" where
  "foundFiles inp =
     (case repositories inp of
        None \<Rightarrow> Inr []
      | Some n \<Rightarrow> findMetadataFiles (repositoriesDir inp) n)"

text \<open>
  \<open>main\<close> with the handler \<open>main().catch(... process.exit(1))\<close>, lines 138-312.
\<close>

definition crashed :: "progress \<Rightarrow> outcome" where
  "crashed st =
     \<lparr>exitCode = 1, written = writtenSoFar st, removed = [], releasesAfter = Some (releasesNow st)\<rparr>"

definition mainReleases :: "platform \<Rightarrow> env \<Rightarrow> input \<Rightarrow> releases option \<Rightarrow> outcome" where
  "mainReleases P E inp rel =
     (case joinValidCategories P (loadValidCategories (categoriesJson inp)) of
        Inl e \<Rightarrow> \<lparr>exitCode = 1, written = [], removed = [], releasesAfter = rel\<rparr>
      | Inr validCategories \<Rightarrow>
     (case foundFiles inp of
        Inl e \<Rightarrow> \<lparr>exitCode = 1, written = [], removed = [], releasesAfter = rel\<rparr>
      | Inr metadataFiles \<Rightarrow>
          if metadataFiles = []
          then \<lparr>exitCode = 0, written = [], removed = [], releasesAfter = rel\<rparr>
          else
     (case categorize P [] metadataFiles of
        Inl e \<Rightarrow> \<lparr>exitCode = 1, written = [], removed = [], releasesAfter = rel\<rparr>
      | Inr categorizedApps \<Rightarrow>
          if rel = None \<and> mkdirFails E
          then \<lparr>exitCode = 1, written = [], removed = [], releasesAfter = rel\<rparr>
          else
     (case generateReleases P E
             \<lparr>releasesNow = (case rel of None \<Rightarrow> [] | Some fs \<Rightarrow> fs), releaseFiles = [],
              categoriesWithReleases = [], writtenSoFar = []\<rparr>
             (ownEntries categorizedApps) of
        (st, Some e) \<Rightarrow> crashed st
      | (st, None) \<Rightarrow>
     (case writeCategories P E categorizedApps st of
        Inl e \<Rightarrow> crashed st
      | Inr st' \<Rightarrow>
          if readdirFails E then crashed st'
          else
            (let r = removeObsolete E (releaseFiles st') (existingReleaseFiles (releasesNow st'))
                       (releasesNow st', [])
             in \<lparr>exitCode = 0, written = writtenSoFar st', removed = snd r,
                  releasesAfter = Some (fst r)\<rparr>))))))"

section \<open>Notions used to state the properties\<close>

text \<open>
  What a comparator must satisfy for \<open>Array.prototype.sort\<close> to sort: here, that
  \<open>localeCompare\<close> is a total preorder on strings.
\<close>

definition consistentCompare :: "platform \<Rightarrow> bool" where
  "consistentCompare P =
     ((\<forall>a b. 0 \<le> localeCompare P a b \<longrightarrow> localeCompare P b a \<le> 0)
      \<and> (\<forall>a b c. localeCompare P a b \<le> 0 \<longrightarrow> localeCompare P b c \<le> 0 \<longrightarrow> localeCompare P a c \<le> 0))"

text \<open>The name of an entry when it is a string, and the order of two entries by their names.\<close>

definition stringName :: "obj \<Rightarrow> jsstring option" where
  "stringName a = (case map_of a (lit ''name'') of Some (JStr s) \<Rightarrow> Some s | _ \<Rightarrow> None)"

definition byName :: "platform \<Rightarrow> obj \<Rightarrow> obj \<Rightarrow> bool" where
  "byName P a b =
     (case stringName a of
        None \<Rightarrow> False
      | Some s \<Rightarrow> (case stringName b of None \<Rightarrow> False | Some t \<Rightarrow> localeCompare P s t \<le> 0))"

text \<open>
  The name as the comparator \<open>a.name.localeCompare(b.name)\<close> reads it when it returns:
  converted to a string, a missing name being \<open>undefined\<close>. The order of two entries
  by these strings; for names that are strings it is the order above.
\<close>

definition nameKey :: "platform \<Rightarrow> obj \<Rightarrow> error + jsstring" where
  "nameKey P a = toStr P (map_of a (lit ''name''))"

definition byNameKey :: "platform \<Rightarrow> obj \<Rightarrow> obj \<Rightarrow> bool" where
  "byNameKey P a b =
     (case nameKey P a of
        Inl e \<Rightarrow> False
      | Inr s \<Rightarrow> (case nameKey P b of Inl e \<Rightarrow> False | Inr t \<Rightarrow> localeCompare P s t \<le> 0))"

text \<open>
  The invariant of the category map of generate-category-all.json.js: the keys are
  distinct, and each category is filed under its name, carries the slug of its name, counts
  its apps and has at least one.
\<close>

definition wellFormedCategory :: "platform \<Rightarrow> jsstring \<times> category \<Rightarrow> bool" where
  "wellFormedCategory P kc =
     (name (snd kc) = fst kc \<and> slug (snd kc) = slugAll P (name (snd kc))
      \<and> count (snd kc) = length (apps (snd kc)) \<and> apps (snd kc) \<noteq> [])"

definition wellFormedCategories :: "platform \<Rightarrow> (jsstring \<times> category) list \<Rightarrow> bool" where
  "wellFormedCategories P cats = (distinct (map fst cats) \<and> list_all (wellFormedCategory P) cats)"

text \<open>
  The property key under which generate-category-all.json.js files an app, and the apps
  filed under a key of its category map.
\<close>

definition categoryKey :: "platform \<Rightarrow> app \<Rightarrow> error + jsstring" where
  "categoryKey P a = toStr P (Some (categoryNameOf a))"

definition appsOf :: "(jsstring \<times> category) list \<Rightarrow> jsstring \<Rightarrow> app list" where
  "appsOf cats k = (case map_of cats k of None \<Rightarrow> [] | Some c \<Rightarrow> apps c)"

text \<open>
  The files generate-releases.js writes: the release of one entry of the category map, and
  the index of the categories that were written.
\<close>

definition releaseOf :: "platform \<Rightarrow> jsstring \<times> obj list \<Rightarrow> jsstring \<times> doc \<Rightarrow> bool" where
  "releaseOf P entry fd =
     (\<exists>as filteredApps.
        arraySort (\<lambda>a b. compareNames P (map_of a (lit ''name'')) (map_of b (lit ''name'')))
          (snd entry) = Inr as
        \<and> mapE (cleanApp P) as = Inr filteredApps
        \<and> fd = (releaseFileName P (fst entry),
                 ReleaseDoc \<lparr>releaseCategory = fst entry, releaseCount = length as,
                              releaseApps = filteredApps\<rparr>))"

definition indexOf :: "platform \<Rightarrow> env \<Rightarrow> (jsstring \<times> obj list) list \<Rightarrow> jsstring list \<Rightarrow> jsstring \<times> doc \<Rightarrow> bool" where
  "indexOf P E categorizedApps cs fd =
     (\<exists>cds categoriesWithCounts.
        mapE (categoryDataOf P E categorizedApps) cs = Inr cds
        \<and> arraySort (\<lambda>a b. Inr (localeCompare P (cdName a) (cdName b))) cds = Inr categoriesWithCounts
        \<and> fd = (lit ''categories.json'',
                 CategoriesDoc \<lparr>totalCategories = length cs,
                                 totalApps = sum_list (map (\<lambda>kv. length (snd kv)) categorizedApps),
                                 categories = categoriesWithCounts\<rparr>))"

text \<open>
  The invariant of the loop that writes the releases, over the entries \<open>S\<close> seen so far
  and the file names \<open>base\<close> that were in the directory before the loop.
\<close>

definition progressOk :: "platform \<Rightarrow> jsstring set \<Rightarrow> (jsstring \<times> obj list) set \<Rightarrow> progress \<Rightarrow> bool" where
  "progressOk P base S st =
     ((\<forall>fd \<in> set (writtenSoFar st). \<exists>entry \<in> S. releaseOf P entry fd)
      \<and> set (releaseFiles st) = fst ` set (writtenSoFar st)
      \<and> set (categoriesWithReleases st) \<subseteq> fst ` S
      \<and> fst ` set (releasesNow st) = base \<union> set (releaseFiles st))"

text \<open>
  An entry of the category map for which neither the sort nor the cleaning of its apps
  throws.
\<close>

definition releasable :: "platform \<Rightarrow> jsstring \<times> obj list \<Rightarrow> bool" where
  "releasable P entry =
     (case arraySort (\<lambda>a b. compareNames P (map_of a (lit ''name'')) (map_of b (lit ''name'')))
             (snd entry) of
        Inl e \<Rightarrow> False
      | Inr as \<Rightarrow> (case mapE (cleanApp P) as of Inl e \<Rightarrow> False | Inr filteredApps \<Rightarrow> True))"

text \<open>The documents of each kind among the files a run wrote.\<close>

definition writtenAll :: "outcome \<Rightarrow> categoryAllData list" where
  "writtenAll r = concat (map (\<lambda>fd. case snd fd of CategoryAllDoc d \<Rightarrow> [d] | _ \<Rightarrow> []) (written r))"

definition writtenReleases :: "outcome \<Rightarrow> (jsstring \<times> releaseData) list" where
  "writtenReleases r =
     concat (map (\<lambda>fd. case snd fd of ReleaseDoc d \<Rightarrow> [(fst fd, d)] | _ \<Rightarrow> []) (written r))"

definition writtenIndexes :: "outcome \<Rightarrow> categoriesData list" where
  "writtenIndexes r = concat (map (\<lambda>fd. case snd fd of CategoriesDoc d \<Rightarrow> [d] | _ \<Rightarrow> []) (written r))"

text \<open>
  An app of a release comes from a validated file: some file that was found loads to an
  object with the eight required fields, of which the app is the cleaned copy.
\<close>

definition fromValidated :: "platform \<Rightarrow> (jsstring \<times> json option) list \<Rightarrow> obj \<Rightarrow> bool" where
  "fromValidated P files a =
     list_ex (\<lambda>pc. case loadMetadata (fst pc) (snd pc) of
                     None \<Rightarrow> False
                   | Some m \<Rightarrow> list_all (fieldPresent m) requiredFields \<and> cleanApp P m = Inr a)
       files"

section \<open>Sample inputs\<close>

text \<open>
  A platform for concrete runs: ASCII lower-casing, comparison by code units, and the
  conversion to strings of the values of this model.
\<close>

definition asciiLower :: "jsstring \<Rightarrow> jsstring" where
  "asciiLower s = map (\<lambda>c. if 65 \<le> c \<and> c \<le> 90 then c + 32 else c) s"

fun codeUnitCompare :: "jsstring \<Rightarrow> jsstring \<Rightarrow> int" where
  "codeUnitCompare [] [] = 0"
| "codeUnitCompare [] (y # ys) = - 1"
| "codeUnitCompare (x # xs) [] = 1"
| "codeUnitCompare (x # xs) (y # ys) =
     (if x < y then - 1 else if y < x then 1 else codeUnitCompare xs ys)"

fun joinWith :: "jsstring \<Rightarrow> jsstring list \<Rightarrow> jsstring" where
  "joinWith sep [] = []"
| "joinWith sep [x] = x"
| "joinWith sep (x # y # ys) = x @ sep @ joinWith sep (y # ys)"

fun sampleToString :: "json \<Rightarrow> jsstring option" where
  "sampleToString JNull = Some (lit ''null'')"
| "sampleToString (JBool b) = Some (if b then lit ''true'' else lit ''false'')"
| "sampleToString (JNum n) = Some ((if n < 0 then lit ''-'' else []) @ decimal (nat \<bar>n\<bar>))"
| "sampleToString (JStr s) = Some s"
| "sampleToString (JArr xs) =
     (if list_all (\<lambda>x. sampleToString x \<noteq> None) xs
      then Some (joinWith (lit '','')
             (map (\<lambda>x. case x of
                          JNull \<Rightarrow> []
                        | _ \<Rightarrow> (case sampleToString x of Some s \<Rightarrow> s | None \<Rightarrow> [])) xs))
      else None)"
| "sampleToString (JObj kv) =
     (if map_of kv (lit ''toString'') = None then Some (lit ''[object Object]'') else None)"

definition samplePlatform :: platform where
  "samplePlatform =
     \<lparr>toLowerCase = asciiLower, localeCompare = codeUnitCompare, ToString = sampleToString\<rparr>"

text \<open>
  Views of the outside. In the first, every path has a last commit at time 1000 and no
  uncommitted change, the clock reads 2000 and no file-system call fails; in the second,
  \<open>git status\<close> reports uncommitted changes for every path.
\<close>

definition quietEnv :: env where
  "quietEnv =
     \<lparr>gitStatus = (\<lambda>p. Inr False), gitLog = (\<lambda>p. Inr (Line (Some 1000))), clock = (\<lambda>p. 2000),
      generatedAt = 2000, writeFails = (\<lambda>f. False), unlinkFails = (\<lambda>f. False),
      mkdirFails = False, readdirFails = False\<rparr>"

definition dirtyEnv :: env where
  "dirtyEnv = quietEnv\<lparr>gitStatus := (\<lambda>p. Inr True)\<rparr>"

text \<open>A view in which every \<open>unlinkSync\<close> fails.\<close>

definition unlinkRefusedEnv :: env where
  "unlinkRefusedEnv = quietEnv\<lparr>unlinkFails := (\<lambda>f. True)\<rparr>"

text \<open>
  A view in which only the files under \<open>releases/\<close> have uncommitted changes, as
  after a run that rewrote them, and one in which the last commit of a path is at a time
  that depends on the path.
\<close>

definition rewrittenEnv :: env where
  "rewrittenEnv = quietEnv\<lparr>gitStatus := (\<lambda>p. Inr (startsWith p (lit ''releases/'')))\<rparr>"

definition variedEnv :: env where
  "variedEnv = quietEnv\<lparr>gitLog := (\<lambda>p. Inr (Line (Some (int (sum_list p)))))\<rparr>"

definition sampleMetadata :: "json \<Rightarrow> json \<Rightarrow> obj" where
  "sampleMetadata n c =
     [(lit ''name'', n), (lit ''category'', c), (lit ''description'', JStr (lit ''d'')),
      (lit ''version'', JStr (lit ''1'')), (lit ''commit'', JStr (lit ''c0'')),
      (lit ''owner'', JStr (lit ''o'')), (lit ''repo'', JStr (lit ''r'')),
      (lit ''path'', JStr (lit ''p''))]"

definition sampleInput :: "(jsstring \<times> node) list \<Rightarrow> input" where
  "sampleInput items =
     \<lparr>repositoriesDir = lit ''/w/repositories'', repositories = Some (Dir items),
      categoriesJson = None\<rparr>"




text \<open>Three apps in two categories, found in an order that is not the sorted one.\<close>

definition threeApps :: input where
  "threeApps = sampleInput
     [(lit ''u'', Dir [(lit ''metadata.json'',
         File (Some (JObj (sampleMetadata (JStr (lit ''Beta'')) (JStr (lit ''Utilities''))))))]),
      (lit ''z'', Dir [(lit ''metadata.json'',
         File (Some (JObj (sampleMetadata (JStr (lit ''Zeta'')) (JStr (lit ''Dev & Ops''))))))]),
      (lit ''a'', Dir [(lit ''metadata.json'',
         File (Some (JObj (sampleMetadata (JStr (lit ''Alpha'')) (JStr (lit ''Dev & Ops''))))))])]"

text \<open>One app whose metadata lacks \<open>version\<close>.\<close>

definition noVersion :: input where
  "noVersion = sampleInput
     [(lit ''a'', Dir [(lit ''metadata.json'',
         File (Some (JObj (filter (\<lambda>kv. fst kv \<noteq> lit ''version'')
                            (sampleMetadata (JStr (lit ''Alpha'')) (JStr (lit ''Tools'')))))))])]"

text \<open>One app whose category is the number 5, and one whose category is \<open>constructor\<close>.\<close>

definition numberCategory :: input where
  "numberCategory = sampleInput
     [(lit ''a'', Dir [(lit ''metadata.json'',
         File (Some (JObj (sampleMetadata (JStr (lit ''Alpha'')) (JNum 5)))))])]"

definition constructorCategory :: input where
  "constructorCategory = sampleInput
     [(lit ''a'', Dir [(lit ''metadata.json'',
         File (Some (JObj (sampleMetadata (JStr (lit ''Alpha'')) (JStr (lit ''constructor''))))))])]"

text \<open>Two apps of one category, both without a \<open>name\<close>.\<close>

definition twoNameless :: input where
  "twoNameless = sampleInput
     [(lit ''a'', Dir [(lit ''metadata.json'',
         File (Some (JObj (filter (\<lambda>kv. fst kv \<noteq> lit ''name'')
                            (sampleMetadata JNull (JStr (lit ''Tools'')))))))]),
      (lit ''b'', Dir [(lit ''metadata.json'',
         File (Some (JObj (filter (\<lambda>kv. fst kv \<noteq> lit ''name'')
                            (sampleMetadata JNull (JStr (lit ''Tools'')))))))])]"

text \<open>
  Three apps of one category, found in this order: one without a \<open>name\<close> (in the
  second input, one whose name is the number 7), Beta and Alpha.
\<close>

definition namelessFirst :: input where
  "namelessFirst = sampleInput
     [(lit ''n'', Dir [(lit ''metadata.json'',
         File (Some (JObj (filter (\<lambda>kv. fst kv \<noteq> lit ''name'')
                            (sampleMetadata JNull (JStr (lit ''Tools'')))))))]),
      (lit ''b'', Dir [(lit ''metadata.json'',
         File (Some (JObj (sampleMetadata (JStr (lit ''Beta'')) (JStr (lit ''Tools''))))))]),
      (lit ''a'', Dir [(lit ''metadata.json'',
         File (Some (JObj (sampleMetadata (JStr (lit ''Alpha'')) (JStr (lit ''Tools''))))))])]"

definition numberNameFirst :: input where
  "numberNameFirst = sampleInput
     [(lit ''n'', Dir [(lit ''metadata.json'',
         File (Some (JObj (sampleMetadata (JNum 7) (JStr (lit ''Tools''))))))]),
      (lit ''b'', Dir [(lit ''metadata.json'',
         File (Some (JObj (sampleMetadata (JStr (lit ''Beta'')) (JStr (lit ''Tools''))))))]),
      (lit ''a'', Dir [(lit ''metadata.json'',
         File (Some (JObj (sampleMetadata (JStr (lit ''Alpha'')) (JStr (lit ''Tools''))))))])]"

text \<open>One app next to a directory that cannot be listed.\<close>

definition lockedDirectory :: input where
  "lockedDirectory = sampleInput
     [(lit ''a'', Dir [(lit ''metadata.json'',
         File (Some (JObj (sampleMetadata (JStr (lit ''Alpha'')) (JStr (lit ''Tools''))))))]),
      (lit ''x'', Locked)]"

text \<open>A releases directory left by earlier runs.\<close>

definition staleReleases :: releases where
  "staleReleases =
     [(lit ''category-all.json'', OtherDoc 0), (lit ''category-old.json'', OtherDoc 1),
      (lit ''notes.txt'', OtherDoc 2)]"

section \<open>Auxiliary facts\<close>

subsection \<open>Replacing characters\<close>

lemma replaceEach_map: "replaceEach s = map (\<lambda>c. if isAlnum c then c else 45) s"
  by (induction s) auto

lemma replaceRuns_nonalnum:
  "\<not> isAlnum c \<Longrightarrow> replaceRuns (c # cs) = 45 # replaceRuns (dropWhile (\<lambda>d. \<not> isAlnum d) cs)"
  by simp

lemma hyphen_not_alnum: "\<not> isAlnum 45"
  by (simp add: isAlnum_def)

lemma replaceRuns_slugChars: "list_all isSlugChar (replaceRuns s)"
  by (induction s rule: replaceRuns.induct) (auto simp: isSlugChar_def)

lemma replaceEach_slugChars: "list_all isSlugChar (replaceEach s)"
  by (induction s) (auto simp: isSlugChar_def)

lemma replaceEach_fixes: "list_all isSlugChar s \<Longrightarrow> replaceEach s = s"
  by (induction s) (auto simp: isSlugChar_def)

lemma replaceRuns_head:
  "s = [] \<or> isAlnum (hd s) \<Longrightarrow> replaceRuns s = [] \<or> isAlnum (hd (replaceRuns s))"
  by (cases s) auto

lemma dropWhile_head: "dropWhile (\<lambda>d. \<not> isAlnum d) cs = [] \<or> isAlnum (hd (dropWhile (\<lambda>d. \<not> isAlnum d) cs))"
  by (metis hd_dropWhile)

lemma dropWhile_id: "s = [] \<or> isAlnum (hd s) \<Longrightarrow> dropWhile (\<lambda>d. \<not> isAlnum d) s = s"
  by (cases s) auto

lemma replaceRuns_idem: "replaceRuns (replaceRuns s) = replaceRuns s"
proof (induction s rule: replaceRuns.induct)
  case 1
  show ?case by simp
next
  case (2 c cs)
  show ?case
  proof (cases "isAlnum c")
    case True
    with 2 show ?thesis by simp
  next
    case False
    let ?r = "replaceRuns (dropWhile (\<lambda>d. \<not> isAlnum d) cs)"
    have "?r = [] \<or> isAlnum (hd ?r)"
      by (rule replaceRuns_head) (rule dropWhile_head)
    then have "dropWhile (\<lambda>d. \<not> isAlnum d) ?r = ?r"
      by (rule dropWhile_id)
    with False 2 show ?thesis
      by (simp add: hyphen_not_alnum)
  qed
qed

lemma runs_nonempty: "r \<in> set (runs s) \<Longrightarrow> r \<noteq> []"
  by (induction s arbitrary: r) (auto split: list.splits if_splits)

lemma runs_Nil_iff: "runs s = [] \<longleftrightarrow> s = []"
  by (cases s) (auto split: list.splits)

lemma concat_runs: "concat (runs s) = s"
  by (induction s) (auto split: list.splits)

lemma runs_uniform: "r \<in> set (runs s) \<Longrightarrow> list_all isAlnum r \<or> list_all (\<lambda>d. \<not> isAlnum d) r"
proof (induction s arbitrary: r)
  case Nil
  then show ?case by simp
next
  case (Cons c cs)
  show ?case
  proof (cases "runs cs")
    case Nil
    with Cons.prems show ?thesis by auto
  next
    case (Cons q qs)
    have q: "list_all isAlnum q \<or> list_all (\<lambda>d. \<not> isAlnum d) q"
      using Cons.IH [of q] Cons by simp
    have rest: "\<And>t. t \<in> set qs \<Longrightarrow> list_all isAlnum t \<or> list_all (\<lambda>d. \<not> isAlnum d) t"
      using Cons.IH Cons by simp
    from Cons.prems Cons q rest show ?thesis
      by (auto split: if_splits)
  qed
qed

lemma runs_head: "runs s = r # rs \<Longrightarrow> s \<noteq> [] \<and> r \<noteq> [] \<and> hd r = hd s"
  by (cases s) (auto split: list.splits if_splits)

lemma runs_class: "runs s = r # rs \<Longrightarrow> list_all isAlnum r = isAlnum (hd s)"
proof -
  assume a: "runs s = r # rs"
  then have h: "r \<noteq> [] \<and> hd r = hd s" by (simp add: runs_head)
  have "list_all isAlnum r \<or> list_all (\<lambda>d. \<not> isAlnum d) r"
    using runs_uniform [of r s] a by simp
  with h show ?thesis by (cases r) auto
qed

lemma replaceRuns_skip:
  "s \<noteq> [] \<Longrightarrow> \<not> isAlnum (hd s) \<Longrightarrow> replaceRuns s = 45 # replaceRuns (dropWhile (\<lambda>d. \<not> isAlnum d) s)"
  by (cases s) auto

lemma replaceRuns_collapse: "replaceRuns s = collapseRuns s"
proof (induction s)
  case Nil
  show ?case by (simp add: collapseRuns_def)
next
  case (Cons c cs)
  show ?case
  proof (cases "runs cs")
    case Nil
    then have "cs = []" by (simp add: runs_Nil_iff)
    then show ?thesis by (simp add: collapseRuns_def)
  next
    case (Cons r rs)
    have hd: "cs \<noteq> [] \<and> r \<noteq> [] \<and> hd r = hd cs" using Cons by (rule runs_head)
    have cls: "list_all isAlnum r = isAlnum (hd cs)" using Cons by (rule runs_class)
    let ?rest = "concat (map (\<lambda>r. if list_all isAlnum r then r else [45]) rs)"
    have IH: "replaceRuns cs = (if list_all isAlnum r then r else [45]) @ ?rest"
      using Cons.IH Cons by (simp add: collapseRuns_def)
    show ?thesis
    proof (cases "isAlnum c")
      case True
      with IH Cons show ?thesis by (simp add: collapseRuns_def)
    next
      case c: False
      show ?thesis
      proof (cases "isAlnum (hd cs)")
        case True
        with hd have "dropWhile (\<lambda>d. \<not> isAlnum d) cs = cs" by (cases cs) auto
        with c True IH Cons cls show ?thesis by (simp add: collapseRuns_def)
      next
        case False
        with hd have "replaceRuns cs = 45 # replaceRuns (dropWhile (\<lambda>d. \<not> isAlnum d) cs)"
          by (simp add: replaceRuns_skip)
        with c False IH Cons cls show ?thesis by (simp add: collapseRuns_def)
      qed
    qed
  qed
qed

subsection \<open>Sorting\<close>

lemma insertBy_set: "insertBy cmp x ys = Inr zs \<Longrightarrow> set zs = insert x (set ys)"
proof (induction ys arbitrary: zs)
  case Nil
  then show ?case by auto
next
  case (Cons y ys)
  show ?case
  proof (cases "cmp x y")
    case (Inl e)
    with Cons.prems show ?thesis by simp
  next
    case (Inr n)
    show ?thesis
    proof (cases "n < 0")
      case True
      with Inr Cons.prems have "zs = x # y # ys" by simp
      then show ?thesis by auto
    next
      case False
      show ?thesis
      proof (cases "insertBy cmp x ys")
        case (Inl e)
        with Inr False Cons.prems show ?thesis by simp
      next
        case r: (Inr ws)
        then have "set ws = insert x (set ys)" by (rule Cons.IH)
        moreover have "zs = y # ws" using r Inr False Cons.prems by simp
        ultimately show ?thesis by auto
      qed
    qed
  qed
qed

lemma insertBy_length: "insertBy cmp x ys = Inr zs \<Longrightarrow> length zs = Suc (length ys)"
proof (induction ys arbitrary: zs)
  case Nil
  then show ?case by auto
next
  case (Cons y ys)
  show ?case
  proof (cases "cmp x y")
    case (Inl e)
    with Cons.prems show ?thesis by simp
  next
    case (Inr n)
    show ?thesis
    proof (cases "n < 0")
      case True
      with Inr Cons.prems have "zs = x # y # ys" by simp
      then show ?thesis by auto
    next
      case False
      show ?thesis
      proof (cases "insertBy cmp x ys")
        case (Inl e)
        with Inr False Cons.prems show ?thesis by simp
      next
        case r: (Inr ws)
        then have "length ws = Suc (length ys)" by (rule Cons.IH)
        moreover have "zs = y # ws" using r Inr False Cons.prems by simp
        ultimately show ?thesis by auto
      qed
    qed
  qed
qed

lemma sortInto_set: "sortInto cmp acc xs = Inr zs \<Longrightarrow> set zs = set acc \<union> set xs"
proof (induction xs arbitrary: acc)
  case Nil
  then show ?case by simp
next
  case (Cons x xs)
  show ?case
  proof (cases "insertBy cmp x acc")
    case (Inl e)
    with Cons.prems show ?thesis by simp
  next
    case (Inr ws)
    then have "set ws = insert x (set acc)" by (rule insertBy_set)
    moreover have "set zs = set ws \<union> set xs" using Cons.prems Inr by (intro Cons.IH) simp
    ultimately show ?thesis by auto
  qed
qed

lemma sortInto_length: "sortInto cmp acc xs = Inr zs \<Longrightarrow> length zs = length acc + length xs"
proof (induction xs arbitrary: acc)
  case Nil
  then show ?case by simp
next
  case (Cons x xs)
  show ?case
  proof (cases "insertBy cmp x acc")
    case (Inl e)
    with Cons.prems show ?thesis by simp
  next
    case (Inr ws)
    then have "length ws = Suc (length acc)" by (rule insertBy_length)
    moreover have "length zs = length ws + length xs" using Cons.prems Inr by (intro Cons.IH) simp
    ultimately show ?thesis by auto
  qed
qed

lemma arraySort_set: "arraySort cmp xs = Inr zs \<Longrightarrow> set zs = set xs"
  using sortInto_set [of cmp "[]" xs zs] by (simp add: arraySort_def)

lemma arraySort_length: "arraySort cmp xs = Inr zs \<Longrightarrow> length zs = length xs"
  using sortInto_length [of cmp "[]" xs zs] by (simp add: arraySort_def)

lemma insertBy_sorted:
  assumes tr: "\<And>a b c. le a b \<Longrightarrow> le b c \<Longrightarrow> le a c"
    and cmp: "\<And>y. y \<in> set ys \<Longrightarrow> \<exists>n. cmp x y = Inr n \<and> (n < 0 \<longrightarrow> le x y) \<and> (0 \<le> n \<longrightarrow> le y x)"
    and sorted: "sorted_wrt le ys"
  shows "\<exists>zs. insertBy cmp x ys = Inr zs \<and> sorted_wrt le zs"
  using cmp sorted
proof (induction ys)
  case Nil
  show ?case by simp
next
  case (Cons y ys)
  obtain n where n: "cmp x y = Inr n" "n < 0 \<longrightarrow> le x y" "0 \<le> n \<longrightarrow> le y x"
    using Cons.prems(1) [of y] by auto
  show ?case
  proof (cases "n < 0")
    case True
    then have xy: "le x y" using n by simp
    have "le x z" if "z \<in> set ys" for z
    proof -
      have "le y z" using that Cons.prems(2) by simp
      with xy show ?thesis by (rule tr)
    qed
    with xy have "sorted_wrt le (x # y # ys)" using Cons.prems(2) by simp
    with True n show ?thesis by simp
  next
    case False
    then have yx: "le y x" using n by simp
    have "\<exists>zs. insertBy cmp x ys = Inr zs \<and> sorted_wrt le zs"
    proof (rule Cons.IH)
      show "\<exists>n. cmp x w = Inr n \<and> (n < 0 \<longrightarrow> le x w) \<and> (0 \<le> n \<longrightarrow> le w x)" if "w \<in> set ys" for w
        using that Cons.prems(1) [of w] by simp
      show "sorted_wrt le ys" using Cons.prems(2) by simp
    qed
    then obtain zs where zs: "insertBy cmp x ys = Inr zs" "sorted_wrt le zs" by blast
    have s: "set zs = insert x (set ys)" using zs(1) by (rule insertBy_set)
    have "le y z" if "z \<in> set zs" for z
      using that s yx Cons.prems(2) by auto
    with zs(2) have "sorted_wrt le (y # zs)" by simp
    with False n zs(1) show ?thesis by simp
  qed
qed

lemma sortInto_sorted:
  assumes tr: "\<And>a b c. le a b \<Longrightarrow> le b c \<Longrightarrow> le a c"
    and cmp: "\<And>x y. x \<in> set acc \<union> set xs \<Longrightarrow> y \<in> set acc \<union> set xs \<Longrightarrow>
                \<exists>n. cmp x y = Inr n \<and> (n < 0 \<longrightarrow> le x y) \<and> (0 \<le> n \<longrightarrow> le y x)"
    and sorted: "sorted_wrt le acc"
  shows "\<exists>zs. sortInto cmp acc xs = Inr zs \<and> sorted_wrt le zs"
  using cmp sorted
proof (induction xs arbitrary: acc)
  case Nil
  then show ?case by simp
next
  case (Cons x xs)
  have "\<exists>zs. insertBy cmp x acc = Inr zs \<and> sorted_wrt le zs"
  proof (rule insertBy_sorted [of le])
    show "le a c" if "le a b" "le b c" for a b c using that by (rule tr)
    show "\<exists>n. cmp x y = Inr n \<and> (n < 0 \<longrightarrow> le x y) \<and> (0 \<le> n \<longrightarrow> le y x)" if "y \<in> set acc" for y
      using that Cons.prems(1) [of x y] by simp
    show "sorted_wrt le acc" by (rule Cons.prems(2))
  qed
  then obtain zs where zs: "insertBy cmp x acc = Inr zs" "sorted_wrt le zs" by blast
  have s: "set zs = insert x (set acc)" using zs(1) by (rule insertBy_set)
  have "\<exists>ws. sortInto cmp zs xs = Inr ws \<and> sorted_wrt le ws"
  proof (rule Cons.IH)
    show "\<exists>n. cmp a b = Inr n \<and> (n < 0 \<longrightarrow> le a b) \<and> (0 \<le> n \<longrightarrow> le b a)"
      if "a \<in> set zs \<union> set xs" "b \<in> set zs \<union> set xs" for a b
    proof (rule Cons.prems(1))
      show "a \<in> set acc \<union> set (x # xs)" using that(1) s by auto
      show "b \<in> set acc \<union> set (x # xs)" using that(2) s by auto
    qed
    show "sorted_wrt le zs" by (rule zs(2))
  qed
  with zs(1) show ?case by simp
qed

lemma arraySort_sorted:
  assumes tr: "\<And>a b c. le a b \<Longrightarrow> le b c \<Longrightarrow> le a c"
    and cmp: "\<And>x y. x \<in> set xs \<Longrightarrow> y \<in> set xs \<Longrightarrow>
                \<exists>n. cmp x y = Inr n \<and> (n < 0 \<longrightarrow> le x y) \<and> (0 \<le> n \<longrightarrow> le y x)"
  shows "\<exists>zs. arraySort cmp xs = Inr zs \<and> sorted_wrt le zs"
  unfolding arraySort_def
proof (rule sortInto_sorted [of le])
  show "le a c" if "le a b" "le b c" for a b c using that by (rule tr)
  show "\<exists>n. cmp x y = Inr n \<and> (n < 0 \<longrightarrow> le x y) \<and> (0 \<le> n \<longrightarrow> le y x)"
    if "x \<in> set [] \<union> set xs" "y \<in> set [] \<union> set xs" for x y
    using that cmp [of x y] by simp
  show "sorted_wrt le []" by simp
qed

text \<open>What a sort that returned has done, whatever the comparator does elsewhere.\<close>

lemma insertBy_count:
  "insertBy cmp x ys = Inr zs \<Longrightarrow> count_list zs w = count_list (x # ys) w"
proof (induction ys arbitrary: zs)
  case Nil
  then show ?case by auto
next
  case (Cons y ys)
  show ?case
  proof (cases "cmp x y")
    case (Inl e)
    with Cons.prems show ?thesis by simp
  next
    case (Inr n)
    show ?thesis
    proof (cases "n < 0")
      case True
      with Inr Cons.prems have "zs = x # y # ys" by simp
      then show ?thesis by simp
    next
      case False
      show ?thesis
      proof (cases "insertBy cmp x ys")
        case (Inl e)
        with Inr False Cons.prems show ?thesis by simp
      next
        case r: (Inr ws)
        then have "count_list ws w = count_list (x # ys) w" by (rule Cons.IH)
        moreover have "zs = y # ws" using r Inr False Cons.prems by simp
        ultimately show ?thesis by simp
      qed
    qed
  qed
qed

lemma sortInto_count:
  "sortInto cmp acc xs = Inr zs \<Longrightarrow> count_list zs w = count_list acc w + count_list xs w"
proof (induction xs arbitrary: acc)
  case Nil
  then show ?case by simp
next
  case (Cons x xs)
  show ?case
  proof (cases "insertBy cmp x acc")
    case (Inl e)
    with Cons.prems show ?thesis by simp
  next
    case (Inr ws)
    then have "count_list ws w = count_list (x # acc) w" by (rule insertBy_count)
    moreover have "count_list zs w = count_list ws w + count_list xs w"
      using Cons.prems Inr by (intro Cons.IH) simp
    ultimately show ?thesis by simp
  qed
qed

lemma arraySort_count: "arraySort cmp xs = Inr zs \<Longrightarrow> count_list zs w = count_list xs w"
  using sortInto_count [of cmp "[]" xs zs w] by (simp add: arraySort_def)

lemma insertBy_keeps_sorted:
  assumes tr: "\<And>a b c. le a b \<Longrightarrow> le b c \<Longrightarrow> le a c"
    and cmp: "\<And>a b n. cmp a b = Inr n \<Longrightarrow> (n < 0 \<longrightarrow> le a b) \<and> (0 \<le> n \<longrightarrow> le b a)"
  shows "insertBy cmp x ys = Inr zs \<Longrightarrow> sorted_wrt le ys \<Longrightarrow> sorted_wrt le zs"
proof (induction ys arbitrary: zs)
  case Nil
  then show ?case by auto
next
  case (Cons y ys)
  show ?case
  proof (cases "cmp x y")
    case (Inl e)
    with Cons.prems show ?thesis by simp
  next
    case (Inr n)
    show ?thesis
    proof (cases "n < 0")
      case True
      then have xy: "le x y" using cmp [OF Inr] by simp
      have "le x z" if "z \<in> set ys" for z
      proof -
        have "le y z" using that Cons.prems(2) by simp
        with xy show ?thesis by (rule tr)
      qed
      with xy have "sorted_wrt le (x # y # ys)" using Cons.prems(2) by simp
      moreover have "zs = x # y # ys" using True Inr Cons.prems(1) by simp
      ultimately show ?thesis by simp
    next
      case False
      then have yx: "le y x" using cmp [OF Inr] by simp
      show ?thesis
      proof (cases "insertBy cmp x ys")
        case (Inl e)
        with Inr False Cons.prems show ?thesis by simp
      next
        case r: (Inr ws)
        have zs: "zs = y # ws" using r Inr False Cons.prems(1) by simp
        have "sorted_wrt le ys" using Cons.prems(2) by simp
        with r have sw: "sorted_wrt le ws" by (rule Cons.IH)
        have s: "set ws = insert x (set ys)" using r by (rule insertBy_set)
        have "le y z" if "z \<in> set ws" for z
          using that s yx Cons.prems(2) by auto
        with sw zs show ?thesis by simp
      qed
    qed
  qed
qed

lemma sortInto_keeps_sorted:
  assumes tr: "\<And>a b c. le a b \<Longrightarrow> le b c \<Longrightarrow> le a c"
    and cmp: "\<And>a b n. cmp a b = Inr n \<Longrightarrow> (n < 0 \<longrightarrow> le a b) \<and> (0 \<le> n \<longrightarrow> le b a)"
  shows "sortInto cmp acc xs = Inr zs \<Longrightarrow> sorted_wrt le acc \<Longrightarrow> sorted_wrt le zs"
proof (induction xs arbitrary: acc)
  case Nil
  then show ?case by simp
next
  case (Cons x xs)
  show ?case
  proof (cases "insertBy cmp x acc")
    case (Inl e)
    with Cons.prems show ?thesis by simp
  next
    case (Inr ws)
    have "sorted_wrt le ws"
      using tr cmp Inr Cons.prems(2) by (rule insertBy_keeps_sorted [of le cmp])
    moreover have "sortInto cmp ws xs = Inr zs" using Cons.prems(1) Inr by simp
    ultimately show ?thesis using Cons.IH by blast
  qed
qed

lemma arraySort_result_sorted:
  assumes tr: "\<And>a b c. le a b \<Longrightarrow> le b c \<Longrightarrow> le a c"
    and cmp: "\<And>a b n. cmp a b = Inr n \<Longrightarrow> (n < 0 \<longrightarrow> le a b) \<and> (0 \<le> n \<longrightarrow> le b a)"
    and srt: "arraySort cmp xs = Inr zs"
  shows "sorted_wrt le zs"
proof (rule sortInto_keeps_sorted [of le cmp "[]" xs zs])
  show "le a c" if "le a b" "le b c" for a b c using that by (rule tr)
  show "(n < 0 \<longrightarrow> le a b) \<and> (0 \<le> n \<longrightarrow> le b a)" if "cmp a b = Inr n" for a b n
    using that by (rule cmp)
  show "sortInto cmp [] xs = Inr zs" using srt by (simp add: arraySort_def)
  show "sorted_wrt le []" by simp
qed

lemma stringName_Some: "stringName a = Some s \<longleftrightarrow> map_of a (lit ''name'') = Some (JStr s)"
proof (cases "map_of a (lit ''name'')")
  case None
  then show ?thesis by (simp add: stringName_def)
next
  case (Some v)
  then show ?thesis by (cases v) (simp_all add: stringName_def)
qed

lemma byNameKey_trans:
  assumes c: "consistentCompare P" and ab: "byNameKey P a b" and bc: "byNameKey P b c"
  shows "byNameKey P a c"
proof -
  from ab obtain s t where st: "nameKey P a = Inr s" "nameKey P b = Inr t" "localeCompare P s t \<le> 0"
    by (auto simp: byNameKey_def split: sum.splits)
  from bc st obtain u where u: "nameKey P c = Inr u" "localeCompare P t u \<le> 0"
    by (auto simp: byNameKey_def split: sum.splits)
  have "localeCompare P s t \<le> 0 \<longrightarrow> localeCompare P t u \<le> 0 \<longrightarrow> localeCompare P s u \<le> 0"
    using c unfolding consistentCompare_def by blast
  with st u show ?thesis by (simp add: byNameKey_def)
qed

lemma compareNames_byNameKey:
  assumes c: "consistentCompare P"
    and n: "compareNames P (map_of a (lit ''name'')) (map_of b (lit ''name'')) = Inr n"
  shows "(n < 0 \<longrightarrow> byNameKey P a b) \<and> (0 \<le> n \<longrightarrow> byNameKey P b a)"
proof -
  from n obtain s t where s: "map_of a (lit ''name'') = Some (JStr s)"
    and t: "toStr P (map_of b (lit ''name'')) = Inr t" and v: "n = localeCompare P s t"
    by (auto simp: compareNames_def split: option.splits json.splits sum.splits)
  have ka: "nameKey P a = Inr s" using s by (simp add: nameKey_def toStr_def)
  have kb: "nameKey P b = Inr t" using t by (simp add: nameKey_def)
  have "0 \<le> localeCompare P s t \<longrightarrow> localeCompare P t s \<le> 0"
    using c by (simp add: consistentCompare_def)
  with ka kb v show ?thesis by (simp add: byNameKey_def)
qed

lemma byNameKey_byName:
  assumes "stringName a \<noteq> None" and "stringName b \<noteq> None"
  shows "byNameKey P a b = byName P a b"
proof -
  from assms obtain s t where s: "stringName a = Some s" and t: "stringName b = Some t" by auto
  then have "nameKey P a = Inr s" "nameKey P b = Inr t"
    by (simp_all add: nameKey_def toStr_def stringName_Some)
  with s t show ?thesis by (simp add: byNameKey_def byName_def)
qed

subsection \<open>Objects as association lists\<close>

lemma map_of_setProp: "map_of (setProp k v d) k' = (if k' = k then Some v else map_of d k')"
  by (induction d) auto

lemma set_setProp: "e \<in> set (setProp k v d) \<Longrightarrow> e = (k, v) \<or> e \<in> set d"
  by (induction d) (auto split: if_splits)

lemma keys_setProp: "fst ` set (setProp k v d) = insert k (fst ` set d)"
proof (induction d)
  case Nil
  show ?case by simp
next
  case (Cons p d)
  obtain k' v' where p: "p = (k', v')" by (cases p)
  show ?case
  proof (cases "k = k'")
    case True
    with p show ?thesis by auto
  next
    case False
    with p Cons.IH show ?thesis by auto
  qed
qed

lemma distinct_setProp: "distinct (map fst d) \<Longrightarrow> distinct (map fst (setProp k v d))"
proof (induction d)
  case Nil
  show ?case by simp
next
  case (Cons p d)
  obtain k' v' where p: "p = (k', v')" by (cases p)
  have "fst ` set (setProp k v d) = insert k (fst ` set d)" by (rule keys_setProp)
  with Cons p show ?case by auto
qed

lemma setProp_other: "(k', v') \<in> set d \<Longrightarrow> k' \<noteq> k \<Longrightarrow> (k', v') \<in> set (setProp k v d)"
  by (induction d) auto

lemma setProp_self: "(k, v) \<in> set (setProp k v d)"
  by (induction d) auto

lemma set_ownEntries: "set (ownEntries d) = set d"
  by (auto simp: ownEntries_def)

lemma length_ownEntries: "length (ownEntries d) = length d"
proof -
  have "length (filter (\<lambda>kv. isArrayIndex (fst kv)) d) + length (filter (\<lambda>kv. \<not> isArrayIndex (fst kv)) d) = length d"
    by (rule sum_length_filter_compl)
  then show ?thesis by (simp add: ownEntries_def)
qed

subsection \<open>Mapping a function that may throw\<close>

lemma mapE_Inr: "mapE f xs = Inr ys \<Longrightarrow> list_all2 (\<lambda>x y. f x = Inr y) xs ys"
proof (induction xs arbitrary: ys)
  case Nil
  then show ?case by simp
next
  case (Cons x xs)
  show ?case
  proof (cases "f x")
    case (Inl e)
    with Cons.prems show ?thesis by simp
  next
    case (Inr y)
    show ?thesis
    proof (cases "mapE f xs")
      case (Inl e)
      with Inr Cons.prems show ?thesis by simp
    next
      case r: (Inr zs)
      then have "list_all2 (\<lambda>x y. f x = Inr y) xs zs" by (rule Cons.IH)
      moreover have "ys = y # zs" using r Inr Cons.prems by simp
      ultimately show ?thesis using Inr by simp
    qed
  qed
qed

lemma mapE_total: "(\<And>x. x \<in> set xs \<Longrightarrow> \<exists>y. f x = Inr y) \<Longrightarrow> \<exists>ys. mapE f xs = Inr ys"
proof (induction xs)
  case Nil
  show ?case by simp
next
  case (Cons x xs)
  obtain y where y: "f x = Inr y" using Cons.prems [of x] by auto
  have "\<exists>ys. mapE f xs = Inr ys" by (rule Cons.IH) (use Cons.prems in simp)
  then obtain ys where "mapE f xs = Inr ys" by blast
  with y show ?case by simp
qed

lemma mapE_member: "mapE f xs = Inr ys \<Longrightarrow> y \<in> set ys \<Longrightarrow> \<exists>x\<in>set xs. f x = Inr y"
proof -
  assume "mapE f xs = Inr ys" and y: "y \<in> set ys"
  then have "list_all2 (\<lambda>x y. f x = Inr y) xs ys" by (simp add: mapE_Inr)
  then have len: "length xs = length ys" and nth: "\<And>i. i < length ys \<Longrightarrow> f (xs ! i) = Inr (ys ! i)"
    by (simp_all add: list_all2_conv_all_nth)
  from y obtain i where i: "i < length ys" "ys ! i = y" by (auto simp: in_set_conv_nth)
  have "xs ! i \<in> set xs" using i len by simp
  moreover have "f (xs ! i) = Inr y" using nth [of i] i by simp
  ultimately show ?thesis by blast
qed

lemma mapE_length: "mapE f xs = Inr ys \<Longrightarrow> length ys = length xs"
  using mapE_Inr [of f xs ys] by (simp add: list_all2_lengthD)

subsection \<open>The category map of the consolidated document\<close>

lemma withLastUpdated_simps:
  "name (withLastUpdated c) = name c"
  "slug (withLastUpdated c) = slug c"
  "count (withLastUpdated c) = count c"
  "apps (withLastUpdated c) = apps c"
  "categoryLastUpdated (withLastUpdated c) = getCategoryLastUpdated (apps c)"
  by (simp_all add: withLastUpdated_def category.defs)

lemma mathMax_Max: "xs \<noteq> [] \<Longrightarrow> mathMax xs = Some (Max (set xs))"
proof (cases xs)
  case Nil
  assume "xs \<noteq> []"
  with Nil show ?thesis by simp
next
  case (Cons x ys)
  then show ?thesis using Max.set_eq_fold [of x ys] by simp
qed

lemma map_of_distinct_mem: "distinct (map fst d) \<Longrightarrow> (k, v) \<in> set d \<Longrightarrow> map_of d k = Some v"
  by simp

lemma wellFormedCategories_mem:
  "wellFormedCategories P cats \<Longrightarrow> kc \<in> set cats \<Longrightarrow> wellFormedCategory P kc"
  by (simp add: wellFormedCategories_def list_all_iff)

lemma addApp_wellFormed:
  assumes wf: "wellFormedCategories P cats" and step: "addApp P cats a = Inr cats'"
  shows "wellFormedCategories P cats'"
proof (cases "toStr P (Some (categoryNameOf a))")
  case (Inl e)
  with step show ?thesis by (simp add: addApp_def)
next
  case (Inr key)
  show ?thesis
  proof (cases "map_of cats key")
    case (Some c)
    let ?c = "c\<lparr>count := count c + 1, apps := apps c @ [a]\<rparr>"
    have cats': "cats' = setProp key ?c cats"
      using step Inr Some by (simp add: addApp_def)
    have mem: "(key, c) \<in> set cats" using Some by (rule map_of_SomeD)
    have "wellFormedCategory P (key, c)" using wf mem by (rule wellFormedCategories_mem)
    then have new: "wellFormedCategory P (key, ?c)" by (simp add: wellFormedCategory_def)
    have "wellFormedCategory P e" if "e \<in> set cats'" for e
    proof -
      have "e = (key, ?c) \<or> e \<in> set cats" using that cats' by (simp add: set_setProp)
      then show ?thesis using new wf by (auto dest: wellFormedCategories_mem)
    qed
    moreover have "distinct (map fst cats')"
      using wf cats' by (simp add: wellFormedCategories_def distinct_setProp)
    ultimately show ?thesis by (simp add: wellFormedCategories_def list_all_iff)
  next
    case None
    show ?thesis
    proof (cases "key \<in> set objectPrototypeKeys")
      case True
      with step Inr None show ?thesis by (simp add: addApp_def)
    next
      case False
      show ?thesis
      proof (cases "categoryNameOf a")
        case (JStr categoryName)
        have key: "key = categoryName" using Inr JStr by (simp add: toStr_def)
        have cats': "cats' = cats @ [(key, \<lparr>name = categoryName, slug = slugAll P categoryName,
                                              count = 1, apps = [a]\<rparr>)]"
          using step Inr None False JStr by (simp add: addApp_def)
        have "key \<notin> fst ` set cats" using None by (simp add: map_of_eq_None_iff)
        with wf cats' key show ?thesis
          by (simp add: wellFormedCategories_def wellFormedCategory_def)
      qed (use step Inr None False in \<open>simp_all add: addApp_def\<close>)
    qed
  qed
qed

lemma addApps_wellFormed:
  "wellFormedCategories P cats \<Longrightarrow> addApps P cats as = Inr cats' \<Longrightarrow> wellFormedCategories P cats'"
proof (induction as arbitrary: cats)
  case Nil
  then show ?case by simp
next
  case (Cons a as)
  show ?case
  proof (cases "addApp P cats a")
    case (Inl e)
    with Cons.prems show ?thesis by simp
  next
    case (Inr cats1)
    have "wellFormedCategories P cats1" using Cons.prems(1) Inr by (rule addApp_wellFormed)
    moreover have "addApps P cats1 as = Inr cats'" using Cons.prems(2) Inr by simp
    ultimately show ?thesis by (rule Cons.IH)
  qed
qed

lemma sortCategoryApps_Inr:
  assumes "sortCategoryApps P kc = Inr kc'"
  shows "fst kc' = fst kc \<and> name (snd kc') = name (snd kc) \<and> slug (snd kc') = slug (snd kc)
         \<and> count (snd kc') = count (snd kc)
         \<and> arraySort (\<lambda>a b. compareNames P (map_of (appMeta a) (lit ''name''))
                                            (map_of (appMeta b) (lit ''name''))) (apps (snd kc))
             = Inr (apps (snd kc'))"
  using assms by (auto simp: sortCategoryApps_def split: sum.splits)

lemma sortCategoryApps_wellFormed:
  assumes "sortCategoryApps P kc = Inr kc'" and "wellFormedCategory P kc"
  shows "wellFormedCategory P kc'"
proof -
  let ?cmp = "\<lambda>a b. compareNames P (map_of (appMeta a) (lit ''name'')) (map_of (appMeta b) (lit ''name''))"
  have s: "fst kc' = fst kc" "name (snd kc') = name (snd kc)" "slug (snd kc') = slug (snd kc)"
      "count (snd kc') = count (snd kc)" "arraySort ?cmp (apps (snd kc)) = Inr (apps (snd kc'))"
    using sortCategoryApps_Inr [OF assms(1)] by simp_all
  have "length (apps (snd kc')) = length (apps (snd kc))" using s(5) by (rule arraySort_length)
  with s assms(2) show ?thesis by (auto simp: wellFormedCategory_def)
qed

lemma mapE_sort_keys: "mapE (sortCategoryApps P) cats = Inr cats' \<Longrightarrow> map fst cats' = map fst cats"
proof -
  assume "mapE (sortCategoryApps P) cats = Inr cats'"
  then have "list_all2 (\<lambda>x y. sortCategoryApps P x = Inr y) cats cats'" by (rule mapE_Inr)
  then have "list_all2 (\<lambda>x y. fst y = fst x) cats cats'"
    by (rule list_all2_mono) (simp add: sortCategoryApps_Inr)
  then show ?thesis by (induction rule: list_all2_induct) simp_all
qed

lemma organize_wellFormed:
  assumes "organizeAppsByCategory P as = Inr cats"
  shows "wellFormedCategories P cats"
proof (cases "addApps P [] as")
  case (Inl e)
  with assms show ?thesis by (simp add: organizeAppsByCategory_def)
next
  case (Inr cats0)
  have m: "mapE (sortCategoryApps P) cats0 = Inr cats"
    using assms Inr by (simp add: organizeAppsByCategory_def)
  have "wellFormedCategories P []" by (simp add: wellFormedCategories_def)
  then have wf0: "wellFormedCategories P cats0" using Inr by (rule addApps_wellFormed)
  have "wellFormedCategory P kc" if kc: "kc \<in> set cats" for kc
  proof -
    obtain kc0 where kc0: "kc0 \<in> set cats0" "sortCategoryApps P kc0 = Inr kc"
      using mapE_member [OF m kc] by blast
    have "wellFormedCategory P kc0" using wf0 kc0(1) by (rule wellFormedCategories_mem)
    with kc0(2) show ?thesis by (rule sortCategoryApps_wellFormed)
  qed
  moreover have "distinct (map fst cats)"
    using wf0 mapE_sort_keys [OF m] by (simp add: wellFormedCategories_def)
  ultimately show ?thesis by (simp add: wellFormedCategories_def list_all_iff)
qed

lemma addApp_key:
  assumes "addApp P cats a = Inr cats'"
  shows "\<exists>k. categoryKey P a = Inr k"
  using assms by (cases "toStr P (Some (categoryNameOf a))") (simp_all add: addApp_def categoryKey_def)

lemma addApp_appsOf:
  assumes step: "addApp P cats a = Inr cats'"
  shows "appsOf cats' k = appsOf cats k @ (if categoryKey P a = Inr k then [a] else [])"
proof (cases "toStr P (Some (categoryNameOf a))")
  case (Inl e)
  with step show ?thesis by (simp add: addApp_def)
next
  case (Inr key)
  then have ck: "categoryKey P a = Inr key" by (simp add: categoryKey_def)
  show ?thesis
  proof (cases "map_of cats key")
    case (Some c)
    have cats': "cats' = setProp key (c\<lparr>count := count c + 1, apps := apps c @ [a]\<rparr>) cats"
      using step Inr Some by (simp add: addApp_def)
    show ?thesis
    proof (cases "k = key")
      case True
      with cats' Some ck show ?thesis by (simp add: appsOf_def map_of_setProp)
    next
      case False
      with cats' ck show ?thesis by (simp add: appsOf_def map_of_setProp)
    qed
  next
    case None
    show ?thesis
    proof (cases "key \<in> set objectPrototypeKeys")
      case True
      with step Inr None show ?thesis by (simp add: addApp_def)
    next
      case False
      show ?thesis
      proof (cases "categoryNameOf a")
        case (JStr categoryName)
        have cats': "cats' = cats @ [(key, \<lparr>name = categoryName, slug = slugAll P categoryName,
                                              count = 1, apps = [a]\<rparr>)]"
          using step Inr None False JStr by (simp add: addApp_def)
        show ?thesis
        proof (cases "k = key")
          case True
          with cats' None ck show ?thesis by (simp add: appsOf_def map_add_def)
        next
          case ne: False
          with cats' ck show ?thesis
            by (cases "map_of cats k") (simp_all add: appsOf_def map_add_def)
        qed
      qed (use step Inr None False in \<open>simp_all add: addApp_def\<close>)
    qed
  qed
qed

lemma addApps_appsOf:
  "addApps P cats as = Inr cats' \<Longrightarrow>
     appsOf cats' k = appsOf cats k @ filter (\<lambda>a. categoryKey P a = Inr k) as"
proof (induction as arbitrary: cats)
  case Nil
  then show ?case by simp
next
  case (Cons a as)
  show ?case
  proof (cases "addApp P cats a")
    case (Inl e)
    with Cons.prems show ?thesis by simp
  next
    case (Inr cats1)
    have 1: "appsOf cats1 k = appsOf cats k @ (if categoryKey P a = Inr k then [a] else [])"
      using Inr by (rule addApp_appsOf)
    have "addApps P cats1 as = Inr cats'" using Cons.prems Inr by simp
    then have "appsOf cats' k = appsOf cats1 k @ filter (\<lambda>a. categoryKey P a = Inr k) as"
      by (rule Cons.IH)
    with 1 show ?thesis by simp
  qed
qed

lemma addApps_keys:
  "addApps P cats as = Inr cats' \<Longrightarrow> a \<in> set as \<Longrightarrow> \<exists>k. categoryKey P a = Inr k"
proof (induction as arbitrary: cats)
  case Nil
  then show ?case by simp
next
  case (Cons b as)
  show ?case
  proof (cases "addApp P cats b")
    case (Inl e)
    with Cons.prems show ?thesis by simp
  next
    case (Inr cats1)
    show ?thesis
    proof (cases "a = b")
      case True
      with Inr show ?thesis by (simp add: addApp_key)
    next
      case False
      with Cons.prems(2) have "a \<in> set as" by simp
      moreover have "addApps P cats1 as = Inr cats'" using Cons.prems(1) Inr by simp
      ultimately show ?thesis using Cons.IH by blast
    qed
  qed
qed

text \<open>The apps of a category of the map: those filed under its key, reordered.\<close>

lemma organize_apps:
  assumes org: "organizeAppsByCategory P as = Inr cats" and mem: "kc \<in> set cats"
  shows "count_list (apps (snd kc)) x
           = count_list (filter (\<lambda>a. categoryKey P a = Inr (fst kc)) as) x"
proof (cases "addApps P [] as")
  case (Inl e)
  with org show ?thesis by (simp add: organizeAppsByCategory_def)
next
  case (Inr cats0)
  have m: "mapE (sortCategoryApps P) cats0 = Inr cats"
    using org Inr by (simp add: organizeAppsByCategory_def)
  obtain kc0 where kc0: "kc0 \<in> set cats0" "sortCategoryApps P kc0 = Inr kc"
    using mapE_member [OF m mem] by blast
  have s: "fst kc = fst kc0"
    "arraySort (\<lambda>a b. compareNames P (map_of (appMeta a) (lit ''name''))
                                       (map_of (appMeta b) (lit ''name''))) (apps (snd kc0))
       = Inr (apps (snd kc))"
    using sortCategoryApps_Inr [OF kc0(2)] by simp_all
  have "wellFormedCategories P []" by (simp add: wellFormedCategories_def)
  then have wf0: "wellFormedCategories P cats0" using Inr by (rule addApps_wellFormed)
  then have "distinct (map fst cats0)" by (simp add: wellFormedCategories_def)
  moreover have "(fst kc0, snd kc0) \<in> set cats0" using kc0(1) by simp
  ultimately have "map_of cats0 (fst kc0) = Some (snd kc0)" by (rule map_of_distinct_mem)
  then have "appsOf cats0 (fst kc0) = apps (snd kc0)" by (simp add: appsOf_def)
  moreover have "appsOf cats0 (fst kc0) = appsOf [] (fst kc0) @ filter (\<lambda>a. categoryKey P a = Inr (fst kc0)) as"
    using Inr by (rule addApps_appsOf)
  ultimately have "apps (snd kc0) = filter (\<lambda>a. categoryKey P a = Inr (fst kc0)) as"
    by (simp add: appsOf_def)
  moreover have "count_list (apps (snd kc)) x = count_list (apps (snd kc0)) x"
    using s(2) by (rule arraySort_count)
  ultimately show ?thesis using s(1) by simp
qed

text \<open>The keys of the map: the category keys of the apps.\<close>

lemma organize_keys:
  assumes org: "organizeAppsByCategory P as = Inr cats"
  shows "Inr ` fst ` set cats = categoryKey P ` set as"
proof (cases "addApps P [] as")
  case (Inl e)
  with org show ?thesis by (simp add: organizeAppsByCategory_def)
next
  case (Inr cats0)
  have m: "mapE (sortCategoryApps P) cats0 = Inr cats"
    using org Inr by (simp add: organizeAppsByCategory_def)
  have keys: "fst ` set cats = fst ` set cats0"
    using mapE_sort_keys [OF m] by (metis list.set_map)
  have "wellFormedCategories P []" by (simp add: wellFormedCategories_def)
  then have wf0: "wellFormedCategories P cats0" using Inr by (rule addApps_wellFormed)
  have ao: "appsOf cats0 k = filter (\<lambda>a. categoryKey P a = Inr k) as" for k
    using addApps_appsOf [OF Inr, of k] by (simp add: appsOf_def)
  show ?thesis
  proof (intro equalityI subsetI)
    fix v :: "error + jsstring"
    assume "v \<in> Inr ` fst ` set cats"
    then obtain kc0 where kc0: "kc0 \<in> set cats0" "v = Inr (fst kc0)" using keys by auto
    have wfk: "wellFormedCategory P kc0" using wf0 kc0(1) by (rule wellFormedCategories_mem)
    have "distinct (map fst cats0)" using wf0 by (simp add: wellFormedCategories_def)
    moreover have "(fst kc0, snd kc0) \<in> set cats0" using kc0(1) by simp
    ultimately have "map_of cats0 (fst kc0) = Some (snd kc0)" by (rule map_of_distinct_mem)
    then have "appsOf cats0 (fst kc0) = apps (snd kc0)" by (simp add: appsOf_def)
    with wfk have "filter (\<lambda>a. categoryKey P a = Inr (fst kc0)) as \<noteq> []"
      using ao [of "fst kc0"] by (simp add: wellFormedCategory_def)
    then obtain a where "a \<in> set as" "categoryKey P a = Inr (fst kc0)"
      by (auto simp: filter_empty_conv)
    with kc0(2) show "v \<in> categoryKey P ` set as" by force
  next
    fix v :: "error + jsstring"
    assume "v \<in> categoryKey P ` set as"
    then obtain a where a: "a \<in> set as" "v = categoryKey P a" by auto
    obtain k where k: "categoryKey P a = Inr k" using addApps_keys [OF Inr a(1)] by blast
    have "a \<in> set (appsOf cats0 k)" using a(1) k by (simp add: ao)
    then have "map_of cats0 k \<noteq> None" by (cases "map_of cats0 k") (simp_all add: appsOf_def)
    then have "k \<in> fst ` set cats0" by (simp add: map_of_eq_None_iff)
    with keys a(2) k show "v \<in> Inr ` fst ` set cats" by simp
  qed
qed

lemma organize_sorted_key:
  assumes org: "organizeAppsByCategory P as = Inr cats"
    and c: "consistentCompare P"
    and mem: "kc \<in> set cats"
  shows "sorted_wrt (\<lambda>a b. byNameKey P (appMeta a) (appMeta b)) (apps (snd kc))"
proof (cases "addApps P [] as")
  case (Inl e)
  with org show ?thesis by (simp add: organizeAppsByCategory_def)
next
  case (Inr cats0)
  let ?cmp = "\<lambda>a b. compareNames P (map_of (appMeta a) (lit ''name'')) (map_of (appMeta b) (lit ''name''))"
  let ?le = "\<lambda>a b. byNameKey P (appMeta a) (appMeta b)"
  have m: "mapE (sortCategoryApps P) cats0 = Inr cats"
    using org Inr by (simp add: organizeAppsByCategory_def)
  obtain kc0 where kc0: "kc0 \<in> set cats0" "sortCategoryApps P kc0 = Inr kc"
    using mapE_member [OF m mem] by blast
  have srt: "arraySort ?cmp (apps (snd kc0)) = Inr (apps (snd kc))"
    using sortCategoryApps_Inr [OF kc0(2)] by simp
  show ?thesis
  proof (rule arraySort_result_sorted [of ?le ?cmp])
    show "?le a d" if "?le a b" "?le b d" for a b d
      using c that by (rule byNameKey_trans)
    show "(n < 0 \<longrightarrow> ?le a b) \<and> (0 \<le> n \<longrightarrow> ?le b a)" if "?cmp a b = Inr n" for a b n
      using c that by (rule compareNames_byNameKey)
    show "arraySort ?cmp (apps (snd kc0)) = Inr (apps (snd kc))" by (rule srt)
  qed
qed

subsection \<open>What the consolidated run writes\<close>

lemma mainAll_written:
  assumes w: "(f, d) \<in> set (written (mainAll P E inp rel))"
  shows "\<exists>cats cs. organizeAppsByCategory P (readAllMetadataFiles E (repositories inp)) = Inr cats
           \<and> arraySort (compareCategories P) (map (\<lambda>kc. withLastUpdated (snd kc)) (ownEntries cats)) = Inr cs
           \<and> f = lit ''category-all.json''
           \<and> d = CategoryAllDoc \<lparr>generated = generatedAt E, allTotalCategories = length cs,
                    allTotalApps = length (readAllMetadataFiles E (repositories inp)),
                    allCategories = cs\<rparr>"
proof -
  let ?as = "readAllMetadataFiles E (repositories inp)"
  show ?thesis
  proof (cases "?as = []")
    case True
    with w show ?thesis by (simp add: mainAll_def)
  next
    case ne: False
    show ?thesis
    proof (cases "organizeAppsByCategory P ?as")
      case (Inl e)
      with w ne show ?thesis by (simp add: mainAll_def)
    next
      case (Inr cats)
      show ?thesis
      proof (cases "arraySort (compareCategories P) (map (\<lambda>kc. withLastUpdated (snd kc)) (ownEntries cats))")
        case (Inl e)
        with w ne Inr show ?thesis by (simp add: mainAll_def)
      next
        case cs: (Inr cs)
        let ?d = "CategoryAllDoc \<lparr>generated = generatedAt E, allTotalCategories = length cs,
                    allTotalApps = length ?as, allCategories = cs\<rparr>"
        show ?thesis
        proof (cases "writeFileSync E (lit ''category-all.json'') ?d rel")
          case (Inl e)
          with w ne Inr cs show ?thesis by (simp add: mainAll_def)
        next
          case wr: (Inr fs)
          have "(f, d) = (lit ''category-all.json'', ?d)"
            using w ne Inr cs wr by (cases "mapE summaryLine cs") (simp_all add: mainAll_def)
          with Inr cs show ?thesis by simp
        qed
      qed
    qed
  qed
qed

lemma mainAll_categories:
  assumes w: "(f, CategoryAllDoc d) \<in> set (written (mainAll P E inp rel))"
    and c: "c \<in> set (allCategories d)"
  shows "\<exists>cats kc. organizeAppsByCategory P (readAllMetadataFiles E (repositories inp)) = Inr cats
           \<and> kc \<in> set cats \<and> c = withLastUpdated (snd kc)"
proof -
  obtain cats cs where o: "organizeAppsByCategory P (readAllMetadataFiles E (repositories inp)) = Inr cats"
    and s: "arraySort (compareCategories P) (map (\<lambda>kc. withLastUpdated (snd kc)) (ownEntries cats)) = Inr cs"
    and d: "allCategories d = cs"
    using mainAll_written [OF w] by auto
  have "set cs = set (map (\<lambda>kc. withLastUpdated (snd kc)) (ownEntries cats))"
    using s by (rule arraySort_set)
  then have "c \<in> (\<lambda>kc. withLastUpdated (snd kc)) ` set cats"
    using c d by (simp add: set_ownEntries)
  with o show ?thesis by blast
qed

lemma mainAll_categories_sorted:
  assumes w: "(f, CategoryAllDoc d) \<in> set (written (mainAll P E inp rel))"
    and c: "consistentCompare P"
  shows "sorted_wrt (\<lambda>a b. localeCompare P (name a) (name b) \<le> 0) (allCategories d)"
proof -
  let ?le = "\<lambda>a b. localeCompare P (name a) (name b) \<le> 0"
  obtain cats cs where s: "arraySort (compareCategories P) (map (\<lambda>kc. withLastUpdated (snd kc)) (ownEntries cats)) = Inr cs"
    and d: "allCategories d = cs"
    using mainAll_written [OF w] by auto
  have tr: "\<And>x y z. localeCompare P x y \<le> 0 \<Longrightarrow> localeCompare P y z \<le> 0 \<Longrightarrow> localeCompare P x z \<le> 0"
    and sym: "\<And>x y. 0 \<le> localeCompare P x y \<Longrightarrow> localeCompare P y x \<le> 0"
    using c unfolding consistentCompare_def by blast+
  have "\<exists>zs. arraySort (compareCategories P) (map (\<lambda>kc. withLastUpdated (snd kc)) (ownEntries cats)) = Inr zs
          \<and> sorted_wrt ?le zs"
  proof (rule arraySort_sorted [of ?le])
    show "?le x z" if "?le x y" "?le y z" for x y z :: datedCategory
      using that by (rule tr)
    show "\<exists>n. compareCategories P x y = Inr n \<and> (n < 0 \<longrightarrow> ?le x y) \<and> (0 \<le> n \<longrightarrow> ?le y x)"
      for x y :: datedCategory
      using sym [of "name x" "name y"] by (simp add: compareCategories_def)
  qed
  with s d show ?thesis by simp
qed

subsection \<open>The loop that writes the releases\<close>

lemma putFile_names: "fst ` set (putFile f d fs) = insert f (fst ` set fs)"
  by (auto simp: putFile_def image_iff)

lemma generateRelease_step:
  assumes step: "generateRelease P E st entry = Inr st'"
  shows "st' = st
       \<or> (\<exists>d. releaseOf P entry (releaseFileName P (fst entry), d)
          \<and> st' = \<lparr>releasesNow = putFile (releaseFileName P (fst entry)) d (releasesNow st),
                   releaseFiles = releaseFiles st @ [releaseFileName P (fst entry)],
                   categoriesWithReleases = categoriesWithReleases st @ [fst entry],
                   writtenSoFar = writtenSoFar st @ [(releaseFileName P (fst entry), d)]\<rparr>)"
proof -
  let ?cmp = "\<lambda>a b. compareNames P (map_of a (lit ''name'')) (map_of b (lit ''name''))"
  show ?thesis
  proof (cases "arraySort ?cmp (snd entry)")
    case (Inl e)
    with step show ?thesis by (simp add: generateRelease_def)
  next
    case (Inr as)
    show ?thesis
    proof (cases "mapE (cleanApp P) as")
      case (Inl e)
      with step Inr show ?thesis by (simp add: generateRelease_def)
    next
      case fa: (Inr filteredApps)
      let ?f = "releaseFileName P (fst entry)"
      let ?d = "ReleaseDoc \<lparr>releaseCategory = fst entry, releaseCount = length as,
                              releaseApps = filteredApps\<rparr>"
      have rel: "releaseOf P entry (?f, ?d)"
        using Inr fa by (auto simp: releaseOf_def)
      show ?thesis
      proof (cases "writeFails E ?f")
        case True
        with step Inr fa show ?thesis by (simp add: generateRelease_def writeFileSync_def Let_def)
      next
        case False
        with step Inr fa have "st' = \<lparr>releasesNow = putFile ?f ?d (releasesNow st),
                   releaseFiles = releaseFiles st @ [?f],
                   categoriesWithReleases = categoriesWithReleases st @ [fst entry],
                   writtenSoFar = writtenSoFar st @ [(?f, ?d)]\<rparr>"
          by (simp add: generateRelease_def writeFileSync_def Let_def)
        with rel show ?thesis by blast
      qed
    qed
  qed
qed

lemma progressOk_mono: "progressOk P base S st \<Longrightarrow> S \<subseteq> T \<Longrightarrow> progressOk P base T st"
  unfolding progressOk_def by (meson image_mono subset_eq)

lemma generateRelease_progress:
  assumes ok: "progressOk P base S st" and step: "generateRelease P E st entry = Inr st'"
  shows "progressOk P base (insert entry S) st'"
proof -
  from generateRelease_step [OF step] show ?thesis
  proof
    assume "st' = st"
    with ok show ?thesis by (auto intro: progressOk_mono)
  next
    assume "\<exists>d. releaseOf P entry (releaseFileName P (fst entry), d)
          \<and> st' = \<lparr>releasesNow = putFile (releaseFileName P (fst entry)) d (releasesNow st),
                   releaseFiles = releaseFiles st @ [releaseFileName P (fst entry)],
                   categoriesWithReleases = categoriesWithReleases st @ [fst entry],
                   writtenSoFar = writtenSoFar st @ [(releaseFileName P (fst entry), d)]\<rparr>"
    then obtain d where rel: "releaseOf P entry (releaseFileName P (fst entry), d)"
      and st': "st' = \<lparr>releasesNow = putFile (releaseFileName P (fst entry)) d (releasesNow st),
                   releaseFiles = releaseFiles st @ [releaseFileName P (fst entry)],
                   categoriesWithReleases = categoriesWithReleases st @ [fst entry],
                   writtenSoFar = writtenSoFar st @ [(releaseFileName P (fst entry), d)]\<rparr>"
      by blast
    have a: "\<forall>fd \<in> set (writtenSoFar st'). \<exists>e \<in> insert entry S. releaseOf P e fd"
      using ok rel st' by (auto simp: progressOk_def)
    have b: "set (releaseFiles st') = fst ` set (writtenSoFar st')"
      using ok st' by (simp add: progressOk_def)
    have c: "set (categoriesWithReleases st') \<subseteq> fst ` insert entry S"
      using ok st' by (auto simp: progressOk_def)
    have d: "fst ` set (releasesNow st') = base \<union> set (releaseFiles st')"
      using ok st' by (simp add: progressOk_def putFile_names)
    from a b c d show ?thesis by (simp add: progressOk_def)
  qed
qed

lemma generateReleases_progress:
  "progressOk P base S st \<Longrightarrow> generateReleases P E st entries = (st', r)
     \<Longrightarrow> progressOk P base (S \<union> set entries) st'"
proof (induction entries arbitrary: S st)
  case Nil
  then show ?case by simp
next
  case (Cons entry entries)
  show ?case
  proof (cases "generateRelease P E st entry")
    case (Inl e)
    with Cons.prems have "st' = st" by simp
    with Cons.prems(1) show ?thesis by (auto intro: progressOk_mono)
  next
    case (Inr st1)
    have "progressOk P base (insert entry S) st1"
      using Cons.prems(1) Inr by (rule generateRelease_progress)
    moreover have "generateReleases P E st1 entries = (st', r)"
      using Cons.prems(2) Inr by simp
    ultimately have "progressOk P base (insert entry S \<union> set entries) st'"
      by (rule Cons.IH)
    then show ?thesis by simp
  qed
qed

lemma generateRelease_written:
  assumes step: "generateRelease P E st entry = Inr st'"
  shows "set (writtenSoFar st) \<subseteq> set (writtenSoFar st')
       \<and> (\<not> writeFails E (releaseFileName P (fst entry))
            \<longrightarrow> releaseFileName P (fst entry) \<in> fst ` set (writtenSoFar st'))"
proof -
  let ?cmp = "\<lambda>a b. compareNames P (map_of a (lit ''name'')) (map_of b (lit ''name''))"
  show ?thesis
  proof (cases "arraySort ?cmp (snd entry)")
    case (Inl e)
    with step show ?thesis by (simp add: generateRelease_def)
  next
    case (Inr as)
    show ?thesis
    proof (cases "mapE (cleanApp P) as")
      case (Inl e)
      with step Inr show ?thesis by (simp add: generateRelease_def)
    next
      case fa: (Inr filteredApps)
      show ?thesis
      proof (cases "writeFails E (releaseFileName P (fst entry))")
        case True
        with step Inr fa have "st' = st"
          by (simp add: generateRelease_def writeFileSync_def Let_def)
        with True show ?thesis by simp
      next
        case False
        with step Inr fa
        have "writtenSoFar st' = writtenSoFar st @
                [(releaseFileName P (fst entry),
                  ReleaseDoc \<lparr>releaseCategory = fst entry, releaseCount = length as,
                               releaseApps = filteredApps\<rparr>)]"
          by (auto simp: generateRelease_def writeFileSync_def Let_def)
        then show ?thesis by force
      qed
    qed
  qed
qed

lemma generateReleases_written:
  "generateReleases P E st entries = (st', None)
     \<Longrightarrow> set (writtenSoFar st) \<subseteq> set (writtenSoFar st')
         \<and> (\<forall>entry \<in> set entries. \<not> writeFails E (releaseFileName P (fst entry))
               \<longrightarrow> releaseFileName P (fst entry) \<in> fst ` set (writtenSoFar st'))"
proof (induction entries arbitrary: st)
  case Nil
  then show ?case by simp
next
  case (Cons entry entries)
  show ?case
  proof (cases "generateRelease P E st entry")
    case (Inl e)
    with Cons.prems show ?thesis by simp
  next
    case (Inr st1)
    with Cons.prems have rest: "generateReleases P E st1 entries = (st', None)" by simp
    have one: "set (writtenSoFar st) \<subseteq> set (writtenSoFar st1)"
      "\<not> writeFails E (releaseFileName P (fst entry))
         \<longrightarrow> releaseFileName P (fst entry) \<in> fst ` set (writtenSoFar st1)"
      using generateRelease_written [OF Inr] by simp_all
    have more: "set (writtenSoFar st1) \<subseteq> set (writtenSoFar st')"
      "\<forall>e \<in> set entries. \<not> writeFails E (releaseFileName P (fst e))
               \<longrightarrow> releaseFileName P (fst e) \<in> fst ` set (writtenSoFar st')"
      using Cons.IH [OF rest] by simp_all
    from one more show ?thesis by auto
  qed
qed

lemma writeCategories_cases:
  assumes "writeCategories P E categorizedApps st = Inr st'"
  shows "st' = st
       \<or> (\<exists>fd. indexOf P E categorizedApps (categoriesWithReleases st) fd
            \<and> st' = st\<lparr>releasesNow := putFile (fst fd) (snd fd) (releasesNow st),
                        writtenSoFar := writtenSoFar st @ [fd]\<rparr>)"
proof (cases "categoriesWithReleases st = []")
  case True
  with assms show ?thesis by (simp add: writeCategories_def)
next
  case ne: False
  show ?thesis
  proof (cases "mapE (categoryDataOf P E categorizedApps) (categoriesWithReleases st)")
    case (Inl e)
    with assms ne show ?thesis by (simp add: writeCategories_def)
  next
    case (Inr cds)
    show ?thesis
    proof (cases "arraySort (\<lambda>a b. Inr (localeCompare P (cdName a) (cdName b))) cds")
      case (Inl e)
      with assms ne Inr show ?thesis by (simp add: writeCategories_def)
    next
      case s: (Inr categoriesWithCounts)
      let ?d = "CategoriesDoc \<lparr>totalCategories = length (categoriesWithReleases st),
                                 totalApps = sum_list (map (\<lambda>kv. length (snd kv)) categorizedApps),
                                 categories = categoriesWithCounts\<rparr>"
      have idx: "indexOf P E categorizedApps (categoriesWithReleases st) (lit ''categories.json'', ?d)"
        using Inr s by (auto simp: indexOf_def)
      show ?thesis
      proof (cases "writeFails E (lit ''categories.json'')")
        case True
        with assms ne Inr s show ?thesis by (simp add: writeCategories_def writeFileSync_def Let_def)
      next
        case False
        with assms ne Inr s have "st' = st\<lparr>releasesNow := putFile (lit ''categories.json'') ?d (releasesNow st),
                        writtenSoFar := writtenSoFar st @ [(lit ''categories.json'', ?d)]\<rparr>"
          by (simp add: writeCategories_def writeFileSync_def Let_def)
        with idx show ?thesis by force
      qed
    qed
  qed
qed

subsection \<open>The removal of obsolete files\<close>

lemma removeObsolete_files:
  "fst (removeObsolete E kept xs acc) =
     filter (\<lambda>e. fst e \<notin> {f \<in> set xs. f \<notin> set kept \<and> \<not> unlinkFails E f}) (fst acc)"
proof (induction xs arbitrary: acc)
  case Nil
  show ?case by simp
next
  case (Cons f xs)
  show ?case
  proof (cases "f \<in> set kept \<or> unlinkFails E f")
    case True
    have "{g \<in> set (f # xs). g \<notin> set kept \<and> \<not> unlinkFails E g} = {g \<in> set xs. g \<notin> set kept \<and> \<not> unlinkFails E g}"
      using True by auto
    with True Cons.IH [of acc] show ?thesis by simp
  next
    case False
    have s: "{g \<in> set (f # xs). g \<notin> set kept \<and> \<not> unlinkFails E g} = insert f {g \<in> set xs. g \<notin> set kept \<and> \<not> unlinkFails E g}"
      using False by auto
    have "fst (removeObsolete E kept (f # xs) acc) =
        filter (\<lambda>e. fst e \<notin> {g \<in> set xs. g \<notin> set kept \<and> \<not> unlinkFails E g})
          (filter (\<lambda>e. fst e \<noteq> f) (fst acc))"
      using False Cons.IH [of "(filter (\<lambda>e. fst e \<noteq> f) (fst acc), snd acc @ [f])"] by simp
    also have "\<dots> = filter (\<lambda>e. fst e \<notin> insert f {g \<in> set xs. g \<notin> set kept \<and> \<not> unlinkFails E g}) (fst acc)"
      by (simp add: conj_commute)
    finally show ?thesis using s by simp
  qed
qed

lemma removeObsolete_removed:
  "set (snd (removeObsolete E kept xs acc)) =
     set (snd acc) \<union> {f \<in> set xs. f \<notin> set kept \<and> \<not> unlinkFails E f}"
proof (induction xs arbitrary: acc)
  case Nil
  show ?case by simp
next
  case (Cons f xs)
  show ?case
  proof (cases "f \<in> set kept \<or> unlinkFails E f")
    case True
    with Cons.IH [of acc] show ?thesis by auto
  next
    case False
    with Cons.IH [of "(filter (\<lambda>e. fst e \<noteq> f) (fst acc), snd acc @ [f])"] show ?thesis by auto
  qed
qed

subsection \<open>The category map of generate-releases.js\<close>

lemma addMetadata_members:
  assumes step: "addMetadata P cats m = Inr cats'" and mem: "(k, as) \<in> set cats'" and x: "x \<in> set as"
  shows "x = m \<or> (\<exists>as0. (k, as0) \<in> set cats \<and> x \<in> set as0)"
proof (cases "toStr P (map_of m (lit ''name''))")
  case (Inl e)
  with step show ?thesis by (simp add: addMetadata_def)
next
  case n: (Inr n)
  show ?thesis
  proof (cases "toStr P (map_of m (lit ''category''))")
    case (Inl e)
    with step n show ?thesis by (simp add: addMetadata_def)
  next
    case (Inr key)
    show ?thesis
    proof (cases "map_of cats key")
      case (Some as0)
      have cats': "cats' = setProp key (as0 @ [m]) cats"
        using step n Inr Some by (simp add: addMetadata_def)
      have old: "(key, as0) \<in> set cats" using Some by (rule map_of_SomeD)
      have "(k, as) = (key, as0 @ [m]) \<or> (k, as) \<in> set cats"
        using mem set_setProp [of "(k, as)" key "as0 @ [m]" cats] unfolding cats' by blast
      with old x show ?thesis by auto
    next
      case None
      show ?thesis
      proof (cases "key \<in> set objectPrototypeKeys")
        case True
        with step n Inr None show ?thesis by (simp add: addMetadata_def)
      next
        case False
        with step n Inr None have "cats' = cats @ [(key, [m])]" by (simp add: addMetadata_def)
        with mem x show ?thesis by auto
      qed
    qed
  qed
qed

lemma categorize_members:
  "categorize P cats files = Inr cats' \<Longrightarrow> (k, as) \<in> set cats' \<Longrightarrow> x \<in> set as
     \<Longrightarrow> (\<exists>as0. (k, as0) \<in> set cats \<and> x \<in> set as0)
         \<or> (\<exists>pc \<in> set files. loadMetadata (fst pc) (snd pc) = Some x)"
proof (induction files arbitrary: cats)
  case Nil
  then show ?case by auto
next
  case (Cons pc files)
  obtain p c where pc: "pc = (p, c)" by (cases pc)
  show ?case
  proof (cases "loadMetadata p c")
    case None
    with Cons.prems pc have "categorize P cats files = Inr cats'" by simp
    from Cons.IH [OF this Cons.prems(2,3)] show ?thesis by auto
  next
    case (Some m)
    show ?thesis
    proof (cases "addMetadata P cats m")
      case (Inl e)
      with Cons.prems pc Some show ?thesis by simp
    next
      case (Inr cats1)
      with Cons.prems pc Some have "categorize P cats1 files = Inr cats'" by simp
      from Cons.IH [OF this Cons.prems(2,3)]
      show ?thesis
      proof
        assume "\<exists>as0. (k, as0) \<in> set cats1 \<and> x \<in> set as0"
        then obtain as0 where "(k, as0) \<in> set cats1" "x \<in> set as0" by blast
        with Inr have "x = m \<or> (\<exists>as0. (k, as0) \<in> set cats \<and> x \<in> set as0)"
          by (rule addMetadata_members)
        with Some pc show ?thesis by auto
      next
        assume "\<exists>pc \<in> set files. loadMetadata (fst pc) (snd pc) = Some x"
        then show ?thesis by auto
      qed
    qed
  qed
qed

lemma filePath_not_required: "lit ''filePath'' \<notin> set requiredFields"
  by (simp add: requiredFields_def lit_def)

lemma fieldPresent_setProp:
  "field \<noteq> k \<Longrightarrow> fieldPresent (setProp k v metadata) field = fieldPresent metadata field"
  by (simp add: fieldPresent_def map_of_setProp)

lemma loadMetadata_Some:
  assumes "loadMetadata filePath c = Some m"
  shows "\<exists>metadata. c = Some (JObj metadata) \<and> list_all (fieldPresent metadata) requiredFields
           \<and> list_all (fieldPresent m) requiredFields
           \<and> m = setProp (lit ''filePath'') (JStr (normalizeSeparators (dirname filePath))) metadata"
proof (cases c)
  case None
  with assms show ?thesis by (simp add: loadMetadata_def)
next
  case (Some v)
  show ?thesis
  proof (cases v)
    case (JObj metadata)
    have all: "list_all (fieldPresent metadata) requiredFields"
      using assms Some JObj by (simp add: loadMetadata_def split: if_splits)
    have m: "m = setProp (lit ''filePath'') (JStr (normalizeSeparators (dirname filePath))) metadata"
      using assms Some JObj by (simp add: loadMetadata_def split: if_splits)
    have "fieldPresent m field" if f: "field \<in> set requiredFields" for field
    proof -
      have "field \<noteq> lit ''filePath''" using f filePath_not_required by auto
      moreover have "fieldPresent metadata field" using all f by (simp add: list_all_iff)
      ultimately show ?thesis using m by (simp add: fieldPresent_setProp)
    qed
    then have "list_all (fieldPresent m) requiredFields" by (simp add: list_all_iff)
    with Some JObj all m show ?thesis by simp
  qed (use assms Some in \<open>simp_all add: loadMetadata_def\<close>)
qed

lemma loadMetadata_missing:
  "\<not> list_all (fieldPresent metadata) requiredFields \<Longrightarrow> loadMetadata filePath (Some (JObj metadata)) = None"
  by (simp add: loadMetadata_def)

subsection \<open>What the run of generate-releases.js writes\<close>

lemma progressOk_initial:
  "progressOk P (fst ` set fs) {} \<lparr>releasesNow = fs, releaseFiles = [], categoriesWithReleases = [], writtenSoFar = []\<rparr>"
  by (simp add: progressOk_def)

lemma mainReleases_written:
  assumes w: "fd \<in> set (written (mainReleases P E inp rel))"
  shows "\<exists>files cats. foundFiles inp = Inr files \<and> categorize P [] files = Inr cats
           \<and> ((\<exists>entry \<in> set cats. releaseOf P entry fd)
               \<or> (\<exists>cs. set cs \<subseteq> fst ` set cats \<and> indexOf P E cats cs fd))"
proof (cases "joinValidCategories P (loadValidCategories (categoriesJson inp))")
  case (Inl e)
  with w show ?thesis by (simp add: mainReleases_def)
next
  case j: (Inr v)
  show ?thesis
  proof (cases "foundFiles inp")
    case (Inl e)
    with w j show ?thesis by (simp add: mainReleases_def)
  next
    case f: (Inr files)
    show ?thesis
    proof (cases "files = []")
      case True
      with w j f show ?thesis by (simp add: mainReleases_def)
    next
      case ne: False
      show ?thesis
      proof (cases "categorize P [] files")
        case (Inl e)
        with w j f ne show ?thesis by (simp add: mainReleases_def)
      next
        case c: (Inr cats)
        show ?thesis
        proof (cases "rel = None \<and> mkdirFails E")
          case True
          with w j f ne c show ?thesis by (simp add: mainReleases_def)
        next
          case mk: False
          let ?fs = "case rel of None \<Rightarrow> [] | Some fs \<Rightarrow> fs"
          let ?st0 = "\<lparr>releasesNow = ?fs, releaseFiles = [], categoriesWithReleases = [], writtenSoFar = []\<rparr>"
          obtain st r where g: "generateReleases P E ?st0 (ownEntries cats) = (st, r)"
            by (cases "generateReleases P E ?st0 (ownEntries cats)")
          have "progressOk P (fst ` set ?fs) ({} \<union> set (ownEntries cats)) st"
            using progressOk_initial g by (rule generateReleases_progress)
          then have ok: "progressOk P (fst ` set ?fs) (set cats) st" by (simp add: set_ownEntries)
          have rel: "\<exists>entry \<in> set cats. releaseOf P entry x" if "x \<in> set (writtenSoFar st)" for x
            using ok that by (simp add: progressOk_def)
          have sub: "set (categoriesWithReleases st) \<subseteq> fst ` set cats"
            using ok by (simp add: progressOk_def)
          show ?thesis
          proof (cases r)
            case (Some e)
            with w j f ne c mk g have "fd \<in> set (writtenSoFar st)"
              by (simp add: mainReleases_def crashed_def)
            with rel f c show ?thesis by blast
          next
            case None
            show ?thesis
            proof (cases "writeCategories P E cats st")
              case (Inl e)
              with w j f ne c mk g None have "fd \<in> set (writtenSoFar st)"
                by (simp add: mainReleases_def crashed_def)
              with rel f c show ?thesis by blast
            next
              case wc: (Inr st')
              have "fd \<in> set (writtenSoFar st')"
                using w j f ne c mk g None wc
                by (cases "readdirFails E") (simp_all add: mainReleases_def crashed_def Let_def)
              moreover from writeCategories_cases [OF wc]
              have "st' = st \<or> (\<exists>x. indexOf P E cats (categoriesWithReleases st) x
                        \<and> writtenSoFar st' = writtenSoFar st @ [x])"
                by auto
              ultimately have "fd \<in> set (writtenSoFar st) \<or> indexOf P E cats (categoriesWithReleases st) fd"
                by auto
              with rel sub f c show ?thesis by blast
            qed
          qed
        qed
      qed
    qed
  qed
qed

subsection \<open>Documents among the written files\<close>

lemma writtenAll_iff: "d \<in> set (writtenAll r) \<longleftrightarrow> (\<exists>f. (f, CategoryAllDoc d) \<in> set (written r))"
proof
  assume "d \<in> set (writtenAll r)"
  then obtain fd where fd: "fd \<in> set (written r)"
    and d: "d \<in> set (case snd fd of CategoryAllDoc d \<Rightarrow> [d] | _ \<Rightarrow> [])"
    by (auto simp: writtenAll_def)
  from d have "snd fd = CategoryAllDoc d" by (cases "snd fd") simp_all
  with fd have "(fst fd, CategoryAllDoc d) \<in> set (written r)" by (metis prod.collapse)
  then show "\<exists>f. (f, CategoryAllDoc d) \<in> set (written r)" by blast
next
  assume "\<exists>f. (f, CategoryAllDoc d) \<in> set (written r)"
  then obtain f where "(f, CategoryAllDoc d) \<in> set (written r)" by blast
  then show "d \<in> set (writtenAll r)" by (force simp: writtenAll_def)
qed

lemma writtenReleases_iff: "(f, d) \<in> set (writtenReleases r) \<longleftrightarrow> (f, ReleaseDoc d) \<in> set (written r)"
proof
  assume "(f, d) \<in> set (writtenReleases r)"
  then obtain fd where fd: "fd \<in> set (written r)"
    and d: "(f, d) \<in> set (case snd fd of ReleaseDoc d \<Rightarrow> [(fst fd, d)] | _ \<Rightarrow> [])"
    by (auto simp: writtenReleases_def)
  from d have "snd fd = ReleaseDoc d \<and> fst fd = f" by (cases "snd fd") simp_all
  with fd show "(f, ReleaseDoc d) \<in> set (written r)" by (metis prod.collapse)
next
  assume "(f, ReleaseDoc d) \<in> set (written r)"
  then show "(f, d) \<in> set (writtenReleases r)" by (force simp: writtenReleases_def)
qed

lemma writtenIndexes_iff: "d \<in> set (writtenIndexes r) \<longleftrightarrow> (\<exists>f. (f, CategoriesDoc d) \<in> set (written r))"
proof
  assume "d \<in> set (writtenIndexes r)"
  then obtain fd where fd: "fd \<in> set (written r)"
    and d: "d \<in> set (case snd fd of CategoriesDoc d \<Rightarrow> [d] | _ \<Rightarrow> [])"
    by (auto simp: writtenIndexes_def)
  from d have "snd fd = CategoriesDoc d" by (cases "snd fd") simp_all
  with fd have "(fst fd, CategoriesDoc d) \<in> set (written r)" by (metis prod.collapse)
  then show "\<exists>f. (f, CategoriesDoc d) \<in> set (written r)" by blast
next
  assume "\<exists>f. (f, CategoriesDoc d) \<in> set (written r)"
  then obtain f where "(f, CategoriesDoc d) \<in> set (written r)" by blast
  then show "d \<in> set (writtenIndexes r)" by (force simp: writtenIndexes_def)
qed

subsection \<open>The documents of generate-releases.js\<close>

lemma mainReleases_release:
  assumes "(f, d) \<in> set (writtenReleases (mainReleases P E inp rel))"
  shows "\<exists>files cats entry. foundFiles inp = Inr files \<and> categorize P [] files = Inr cats
           \<and> entry \<in> set cats \<and> releaseOf P entry (f, ReleaseDoc d)"
proof -
  have "(f, ReleaseDoc d) \<in> set (written (mainReleases P E inp rel))"
    using assms by (simp add: writtenReleases_iff)
  from mainReleases_written [OF this]
  obtain files cats where fc: "foundFiles inp = Inr files" "categorize P [] files = Inr cats"
    and alt: "(\<exists>entry \<in> set cats. releaseOf P entry (f, ReleaseDoc d))
              \<or> (\<exists>cs. set cs \<subseteq> fst ` set cats \<and> indexOf P E cats cs (f, ReleaseDoc d))"
    by blast
  have "\<not> indexOf P E cats cs (f, ReleaseDoc d)" for cs
    by (simp add: indexOf_def)
  with alt fc show ?thesis by blast
qed

lemma mainReleases_index:
  assumes "d \<in> set (writtenIndexes (mainReleases P E inp rel))"
  shows "\<exists>files cats cs f. foundFiles inp = Inr files \<and> categorize P [] files = Inr cats
           \<and> set cs \<subseteq> fst ` set cats \<and> indexOf P E cats cs (f, CategoriesDoc d)"
proof -
  obtain f where "(f, CategoriesDoc d) \<in> set (written (mainReleases P E inp rel))"
    using assms by (auto simp: writtenIndexes_iff)
  from mainReleases_written [OF this]
  obtain files cats where fc: "foundFiles inp = Inr files" "categorize P [] files = Inr cats"
    and alt: "(\<exists>entry \<in> set cats. releaseOf P entry (f, CategoriesDoc d))
              \<or> (\<exists>cs. set cs \<subseteq> fst ` set cats \<and> indexOf P E cats cs (f, CategoriesDoc d))"
    by blast
  have "\<not> releaseOf P entry (f, CategoriesDoc d)" for entry
    by (simp add: releaseOf_def)
  with alt fc show ?thesis by blast
qed

lemma categoryDataOf_Inr:
  assumes "categoryDataOf P E cats k = Inr c"
  shows "cdName c = k \<and> cdSlug c = categorySlug P k
         \<and> getLastCommitTimestampForCategory P E k = Inr (cdLastUpdated c)
         \<and> (\<exists>as. map_of cats k = Some as \<and> cdCount c = length as)"
proof (cases "getLastCommitTimestampForCategory P E k")
  case (Inl e)
  with assms show ?thesis by (simp add: categoryDataOf_def)
next
  case (Inr t)
  show ?thesis
  proof (cases "toISOString t")
    case (Inl e)
    with assms Inr show ?thesis by (simp add: categoryDataOf_def)
  next
    case u: (Inr u)
    show ?thesis
    proof (cases "map_of cats k")
      case None
      with assms Inr u show ?thesis by (simp add: categoryDataOf_def)
    next
      case (Some as)
      with assms Inr u have "c = \<lparr>cdName = k, cdSlug = categorySlug P k, cdCount = length as,
                         cdLastUpdated = t\<rparr>"
        by (simp add: categoryDataOf_def)
      with Inr Some show ?thesis by simp
    qed
  qed
qed

lemma index_category:
  assumes d: "d \<in> set (writtenIndexes (mainReleases P E inp rel))" and c: "c \<in> set (categories d)"
  shows "cdSlug c = categorySlug P (cdName c)
         \<and> getLastCommitTimestampForCategory P E (cdName c) = Inr (cdLastUpdated c)"
proof -
  obtain cats cs f where idx: "indexOf P E cats cs (f, CategoriesDoc d)"
    using mainReleases_index [OF d] by blast
  then obtain cds where m: "mapE (categoryDataOf P E cats) cs = Inr cds"
    and s: "arraySort (\<lambda>a b. Inr (localeCompare P (cdName a) (cdName b))) cds = Inr (categories d)"
    by (auto simp: indexOf_def)
  have "set (categories d) = set cds" using s by (rule arraySort_set)
  with c have "c \<in> set cds" by simp
  with m obtain k where "categoryDataOf P E cats k = Inr c" by (auto dest: mapE_member)
  then show ?thesis using categoryDataOf_Inr [of P E cats k c] by simp
qed

subsection \<open>The categories of the consolidated document\<close>

lemma distinct_keys_ownEntries:
  assumes "distinct (map fst d)"
  shows "distinct (map fst (ownEntries d))"
proof (rule card_distinct)
  have "card (set (map fst (ownEntries d))) = card (set (map fst d))"
    by (simp add: set_ownEntries)
  also have "\<dots> = length (map fst d)" using assms by (rule distinct_card)
  finally show "card (set (map fst (ownEntries d))) = length (map fst (ownEntries d))"
    by (simp add: length_ownEntries)
qed

lemma arraySort_distinct_map:
  assumes srt: "arraySort cmp xs = Inr zs" and d: "distinct (map f xs)"
  shows "distinct (map f zs)"
proof (rule card_distinct)
  have "set zs = set xs" using srt by (rule arraySort_set)
  then have "card (set (map f zs)) = card (set (map f xs))" by simp
  also have "\<dots> = length (map f xs)" using d by (rule distinct_card)
  finally show "card (set (map f zs)) = length (map f zs)"
    using arraySort_length [OF srt] by simp
qed

text \<open>The categories of a consolidated document that was written, against the apps read.\<close>

lemma allCategories_content:
  assumes d: "d \<in> set (writtenAll (mainAll P E inp rel))"
  shows "distinct (map name (allCategories d))"
    and "Inr ` name ` set (allCategories d) = categoryKey P ` set (readAllMetadataFiles E (repositories inp))"
    and "c \<in> set (allCategories d) \<Longrightarrow>
           count_list (apps c) x
             = count_list (filter (\<lambda>a. categoryKey P a = Inr (name c))
                             (readAllMetadataFiles E (repositories inp))) x"
    and "consistentCompare P \<Longrightarrow> c \<in> set (allCategories d) \<Longrightarrow>
           sorted_wrt (\<lambda>a b. byNameKey P (appMeta a) (appMeta b)) (apps c)"
    and "allTotalApps d = length (readAllMetadataFiles E (repositories inp))"
proof -
  let ?as = "readAllMetadataFiles E (repositories inp)"
  let ?xs = "\<lambda>cats. map (\<lambda>kc. withLastUpdated (snd kc)) (ownEntries cats)"
  obtain f where "(f, CategoryAllDoc d) \<in> set (written (mainAll P E inp rel))"
    using d by (auto simp: writtenAll_iff)
  from mainAll_written [OF this]
  obtain cats where o: "organizeAppsByCategory P ?as = Inr cats"
    and s: "arraySort (compareCategories P) (?xs cats) = Inr (allCategories d)"
    and t: "allTotalApps d = length ?as"
    by auto
  have wf: "wellFormedCategories P cats" using o by (rule organize_wellFormed)
  have nm: "name (snd kc) = fst kc" if "kc \<in> set cats" for kc
    using wellFormedCategories_mem [OF wf that] by (simp add: wellFormedCategory_def)
  have names: "map name (?xs cats) = map fst (ownEntries cats)"
    by (simp add: withLastUpdated_simps nm set_ownEntries)
  have "distinct (map fst cats)" using wf by (simp add: wellFormedCategories_def)
  then have "distinct (map fst (ownEntries cats))" by (rule distinct_keys_ownEntries)
  then have "distinct (map name (?xs cats))" by (simp only: names)
  with s show "distinct (map name (allCategories d))" by (rule arraySort_distinct_map)
  have set_eq: "set (allCategories d) = set (?xs cats)" using s by (rule arraySort_set)
  have "name ` set (allCategories d) = set (map name (?xs cats))"
    using set_eq by (simp add: image_image)
  also have "\<dots> = fst ` set cats" using names by (simp add: set_ownEntries)
  finally have "name ` set (allCategories d) = fst ` set cats" .
  then show "Inr ` name ` set (allCategories d) = categoryKey P ` set ?as"
    using organize_keys [OF o] by simp
  show "allTotalApps d = length ?as" by (rule t)
  have pick: "\<exists>kc \<in> set cats. c = withLastUpdated (snd kc)" if "c \<in> set (allCategories d)"
    using that set_eq by (auto simp: set_ownEntries)
  show "count_list (apps c) x = count_list (filter (\<lambda>a. categoryKey P a = Inr (name c)) ?as) x"
    if cm: "c \<in> set (allCategories d)"
  proof -
    obtain kc where kc: "kc \<in> set cats" "c = withLastUpdated (snd kc)" using pick [OF cm] by blast
    have "count_list (apps (snd kc)) x
            = count_list (filter (\<lambda>a. categoryKey P a = Inr (fst kc)) ?as) x"
      using o kc(1) by (rule organize_apps)
    with kc nm [OF kc(1)] show ?thesis by (simp add: withLastUpdated_simps)
  qed
  show "sorted_wrt (\<lambda>a b. byNameKey P (appMeta a) (appMeta b)) (apps c)"
    if cc: "consistentCompare P" and cm: "c \<in> set (allCategories d)"
  proof -
    obtain kc where kc: "kc \<in> set cats" "c = withLastUpdated (snd kc)" using pick [OF cm] by blast
    have "sorted_wrt (\<lambda>a b. byNameKey P (appMeta a) (appMeta b)) (apps (snd kc))"
      using o cc kc(1) by (rule organize_sorted_key)
    with kc(2) show ?thesis by (simp add: withLastUpdated_simps)
  qed
qed

lemma allCategories_apps:
  assumes d: "d \<in> set (writtenAll (mainAll P E inp rel))"
  shows "set (concat (map apps (allCategories d))) = set (readAllMetadataFiles E (repositories inp))"
proof (intro equalityI subsetI)
  let ?as = "readAllMetadataFiles E (repositories inp)"
  fix a
  assume "a \<in> set (concat (map apps (allCategories d)))"
  then obtain c where c: "c \<in> set (allCategories d)" "a \<in> set (apps c)" by auto
  then have "count_list (apps c) a \<noteq> 0" by (simp add: count_list_0_iff)
  then have "count_list (filter (\<lambda>a. categoryKey P a = Inr (name c)) ?as) a \<noteq> 0"
    using allCategories_content(3) [OF d c(1), of a] by simp
  then show "a \<in> set ?as" by (simp add: count_list_0_iff)
next
  let ?as = "readAllMetadataFiles E (repositories inp)"
  fix a
  assume a: "a \<in> set ?as"
  then have "categoryKey P a \<in> Inr ` name ` set (allCategories d)"
    using allCategories_content(2) [OF d] by auto
  then obtain c where c: "c \<in> set (allCategories d)" "categoryKey P a = Inr (name c)" by auto
  have "a \<in> set (filter (\<lambda>a. categoryKey P a = Inr (name c)) ?as)" using a c(2) by simp
  then have "count_list (filter (\<lambda>a. categoryKey P a = Inr (name c)) ?as) a \<noteq> 0"
    by (simp only: count_list_0_iff not_not)
  then have "count_list (apps c) a \<noteq> 0"
    using allCategories_content(3) [OF d c(1), of a] by simp
  then have "a \<in> set (apps c)" by (simp add: count_list_0_iff)
  with c(1) show "a \<in> set (concat (map apps (allCategories d)))" by auto
qed

section \<open>Properties of the slugs\<close>

lemma asciiLower_fixes: "list_all isSlugChar s \<Longrightarrow> asciiLower s = s"
  by (induction s) (auto simp: asciiLower_def isSlugChar_def isAlnum_def)

lemma replaceEach_length: "length (replaceEach s) = length s"
  by (induction s) simp_all

lemma replaceEach_nth:
  "i < length s \<Longrightarrow> replaceEach s ! i = (if isAlnum (s ! i) then s ! i else 45)"
proof (induction s arbitrary: i)
  case Nil
  then show ?case by simp
next
  case (Cons c cs)
  then show ?case by (cases i) simp_all
qed

lemma allCategories_slug:
  assumes d: "d \<in> set (writtenAll (mainAll P E inp rel))" and c: "c \<in> set (allCategories d)"
  shows "slug c = slugAll P (name c)"
proof -
  obtain f where "(f, CategoryAllDoc d) \<in> set (written (mainAll P E inp rel))"
    using d by (auto simp: writtenAll_iff)
  from mainAll_categories [OF this c]
  obtain cats kc where o: "organizeAppsByCategory P (readAllMetadataFiles E (repositories inp)) = Inr cats"
    and kc: "kc \<in> set cats" "c = withLastUpdated (snd kc)"
    by blast
  have "wellFormedCategories P cats" using o by (rule organize_wellFormed)
  then have "wellFormedCategory P kc" using kc(1) by (rule wellFormedCategories_mem)
  with kc(2) show ?thesis by (simp add: wellFormedCategory_def withLastUpdated_simps)
qed

lemma release_fileName:
  assumes "(f, d) \<in> set (writtenReleases (mainReleases P E inp rel))"
  shows "f = lit ''category-'' @ categorySlug P (releaseCategory d) @ lit ''.json''"
proof -
  obtain entry where "releaseOf P entry (f, ReleaseDoc d)"
    using mainReleases_release [OF assms] by blast
  then show ?thesis by (auto simp: releaseOf_def releaseFileName_def)
qed

text \<open>
  C3 (as amended). The slug of generate-category-all.json.js is the lower-cased category
  name with every maximal run of characters outside a-z, 0-9 replaced by one hyphen, and
  this is the slug of every category of the consolidated document. The slug of
  generate-releases.js replaces every such character by a hyphen of its own, so it has the
  length of the name; this is the slug of every category of the index, and the one in the
  name of every release file.
\<close>

theorem slug_of_each_script:
  "slugAll P x = collapseRuns (toLowerCase P x)
   \<and> length (categorySlug P x) = length (toLowerCase P x)
   \<and> (\<forall>i < length (toLowerCase P x).
         categorySlug P x ! i = (if isAlnum (toLowerCase P x ! i) then toLowerCase P x ! i else 45))
   \<and> (\<forall>d \<in> set (writtenAll (mainAll P E inp rel)). \<forall>c \<in> set (allCategories d).
         slug c = collapseRuns (toLowerCase P (name c)))
   \<and> (\<forall>d \<in> set (writtenIndexes (mainReleases P E inp rel)). \<forall>c \<in> set (categories d).
         cdSlug c = categorySlug P (cdName c))
   \<and> (\<forall>fd \<in> set (writtenReleases (mainReleases P E inp rel)).
         fst fd = lit ''category-'' @ categorySlug P (releaseCategory (snd fd)) @ lit ''.json'')"
proof (intro conjI ballI allI impI)
  show "slugAll P x = collapseRuns (toLowerCase P x)"
    by (simp add: slugAll_def replaceRuns_collapse)
  show "length (categorySlug P x) = length (toLowerCase P x)"
    by (simp add: categorySlug_def replaceEach_length)
  show "categorySlug P x ! i = (if isAlnum (toLowerCase P x ! i) then toLowerCase P x ! i else 45)"
    if "i < length (toLowerCase P x)" for i
    using that by (simp add: categorySlug_def replaceEach_nth)
  show "slug c = collapseRuns (toLowerCase P (name c))"
    if "d \<in> set (writtenAll (mainAll P E inp rel))" "c \<in> set (allCategories d)" for d c
    using allCategories_slug [OF that] by (simp add: slugAll_def replaceRuns_collapse)
  show "cdSlug c = categorySlug P (cdName c)"
    if "d \<in> set (writtenIndexes (mainReleases P E inp rel))" "c \<in> set (categories d)" for d c
    using index_category [OF that] by simp
  show "fst fd = lit ''category-'' @ categorySlug P (releaseCategory (snd fd)) @ lit ''.json''"
    if "fd \<in> set (writtenReleases (mainReleases P E inp rel))" for fd
    using release_fileName [of "fst fd" "snd fd" P E inp rel] that by simp
qed

theorem slug_of_each_script_witness:
  "map (\<lambda>c. (slug c, collapseRuns (toLowerCase samplePlatform (name c))))
       (concat (map allCategories (writtenAll (mainAll samplePlatform quietEnv threeApps (Some [])))))
     = [(lit ''dev-ops'', lit ''dev-ops''), (lit ''utilities'', lit ''utilities'')]
   \<and> list_all (\<lambda>d. list_all (\<lambda>c. slug c = collapseRuns (toLowerCase samplePlatform (name c)))
                   (allCategories d))
       (writtenAll (mainAll samplePlatform quietEnv threeApps (Some [])))
   \<and> list_all (\<lambda>d. list_all (\<lambda>c. cdSlug c = categorySlug samplePlatform (cdName c)) (categories d))
       (writtenIndexes (mainReleases samplePlatform quietEnv threeApps (Some [])))
   \<and> list_all (\<lambda>fd. fst fd = lit ''category-''
                     @ categorySlug samplePlatform (releaseCategory (snd fd)) @ lit ''.json'')
       (writtenReleases (mainReleases samplePlatform quietEnv threeApps (Some [])))"
proof -
  have v: "map (\<lambda>c. (slug c, collapseRuns (toLowerCase samplePlatform (name c))))
       (concat (map allCategories (writtenAll (mainAll samplePlatform quietEnv threeApps (Some [])))))
     = [(lit ''dev-ops'', lit ''dev-ops''), (lit ''utilities'', lit ''utilities'')]"
    by code_simp
  from slug_of_each_script [of samplePlatform "[]" quietEnv threeApps "Some []"]
  have "list_all (\<lambda>d. list_all (\<lambda>c. slug c = collapseRuns (toLowerCase samplePlatform (name c)))
                   (allCategories d))
       (writtenAll (mainAll samplePlatform quietEnv threeApps (Some [])))"
    and "list_all (\<lambda>d. list_all (\<lambda>c. cdSlug c = categorySlug samplePlatform (cdName c)) (categories d))
       (writtenIndexes (mainReleases samplePlatform quietEnv threeApps (Some [])))"
    and "list_all (\<lambda>fd. fst fd = lit ''category-''
                     @ categorySlug samplePlatform (releaseCategory (snd fd)) @ lit ''.json'')
       (writtenReleases (mainReleases samplePlatform quietEnv threeApps (Some [])))"
    by (simp_all add: list_all_iff)
  with v show ?thesis by simp
qed

theorem slug_collapse_counterexample:
  "map cdSlug (concat (map categories
      (writtenIndexes (mainReleases samplePlatform quietEnv threeApps (Some [])))))
     = [lit ''dev---ops'', lit ''utilities'']
   \<and> collapseRuns (toLowerCase samplePlatform (lit ''Dev & Ops'')) = lit ''dev-ops''"
  by code_simp

text \<open>
  C4. Whenever \<open>toLowerCase\<close> leaves a string of lower-case letters, digits and hyphens
  as it is, the slug of either script is a fixed point of that script's slug function, and
  consists of lower-case ASCII letters, digits and hyphens only.
\<close>

theorem slug_idempotent:
  assumes "\<forall>s. list_all isSlugChar s \<longrightarrow> toLowerCase P s = s"
  shows "slugAll P (slugAll P x) = slugAll P x
       \<and> categorySlug P (categorySlug P x) = categorySlug P x
       \<and> list_all isSlugChar (slugAll P x)
       \<and> list_all isSlugChar (categorySlug P x)"
proof -
  have a: "list_all isSlugChar (slugAll P x)"
    by (simp add: slugAll_def replaceRuns_slugChars)
  have b: "list_all isSlugChar (categorySlug P x)"
    by (simp add: categorySlug_def replaceEach_slugChars)
  have "toLowerCase P (slugAll P x) = slugAll P x" using assms a by blast
  then have c: "slugAll P (slugAll P x) = slugAll P x"
    by (simp add: slugAll_def replaceRuns_idem)
  have "toLowerCase P (categorySlug P x) = categorySlug P x" using assms b by blast
  then have d: "categorySlug P (categorySlug P x) = categorySlug P x"
    using b by (simp add: categorySlug_def replaceEach_fixes)
  from a b c d show ?thesis by simp
qed

theorem slug_idempotent_witness:
  "slugAll samplePlatform (lit ''Dev & Ops'') = lit ''dev-ops''
   \<and> categorySlug samplePlatform (lit ''Dev & Ops'') = lit ''dev---ops''
   \<and> slugAll samplePlatform (slugAll samplePlatform (lit ''Dev & Ops''))
       = slugAll samplePlatform (lit ''Dev & Ops'')
   \<and> categorySlug samplePlatform (categorySlug samplePlatform (lit ''Dev & Ops''))
       = categorySlug samplePlatform (lit ''Dev & Ops'')
   \<and> list_all isSlugChar (slugAll samplePlatform (lit ''Dev & Ops''))
   \<and> list_all isSlugChar (categorySlug samplePlatform (lit ''Dev & Ops''))"
proof -
  have h: "\<forall>s. list_all isSlugChar s \<longrightarrow> toLowerCase samplePlatform s = s"
    by (simp add: samplePlatform_def asciiLower_fixes)
  have v: "slugAll samplePlatform (lit ''Dev & Ops'') = lit ''dev-ops''
      \<and> categorySlug samplePlatform (lit ''Dev & Ops'') = lit ''dev---ops''"
    by code_simp
  from v slug_idempotent [OF h, of "lit ''Dev & Ops''"] show ?thesis by simp
qed

section \<open>Properties of the timestamps\<close>

lemma currentTime_valid: "validDate (clock E p) \<Longrightarrow> currentTime E p = Inr (clock E p)"
  by (simp add: currentTime_def toISOString_def)

lemma logTimestamp_chain:
  "validDate (clock E p) \<Longrightarrow>
     (case logTimestamp E p of Inr t \<Rightarrow> Inr t | Inl e \<Rightarrow> currentTime E p)
       = Inr (case gitLog E p of
                Inr (Line (Some t)) \<Rightarrow> if validDate t then t else clock E p
              | _ \<Rightarrow> clock E p)"
  by (simp add: logTimestamp_def currentTime_valid toISOString_def
           split: sum.splits log_stdout.splits option.splits)

text \<open>
  C5 (as amended). With the clock inside the range of dates, neither resolver throws. That
  of generate-releases.js returns the current time when \<open>git status\<close> reports the
  category file, and otherwise (also when the status query fails) the time of the last
  commit if \<open>git log\<close> prints one that is a valid date, and otherwise (no output, an
  unreadable one, or a failed query) the current time. That of
  generate-category-all.json.js never asks for the status: it returns the time of the last
  commit under the same conditions, and otherwise the current time.
\<close>

theorem timestamp_fallback_chain:
  assumes "validDate (clock E (categoryFilePath P c))" and "validDate (clock E filePath)"
  shows "getLastCommitTimestampForCategory P E c =
           Inr (if gitStatus E (categoryFilePath P c) = Inr True
                then clock E (categoryFilePath P c)
                else (case gitLog E (categoryFilePath P c) of
                        Inr (Line (Some t)) \<Rightarrow>
                          if validDate t then t else clock E (categoryFilePath P c)
                      | _ \<Rightarrow> clock E (categoryFilePath P c)))
       \<and> getLastCommitTimestampForMetadataFile E filePath =
           Inr (case gitLog E filePath of
                  Inr (Line (Some t)) \<Rightarrow> if validDate t then t else clock E filePath
                | _ \<Rightarrow> clock E filePath)"
proof
  let ?p = "categoryFilePath P c"
  show "getLastCommitTimestampForCategory P E c =
           Inr (if gitStatus E ?p = Inr True then clock E ?p
                else (case gitLog E ?p of
                        Inr (Line (Some t)) \<Rightarrow> if validDate t then t else clock E ?p
                      | _ \<Rightarrow> clock E ?p))"
  proof (cases "gitStatus E ?p = Inr True")
    case True
    with assms(1) show ?thesis
      by (simp add: getLastCommitTimestampForCategory_def uncommittedChanges_def currentTime_valid Let_def)
  next
    case False
    then have "uncommittedChanges E ?p = None"
      by (auto simp: uncommittedChanges_def split: sum.splits bool.splits)
    with False logTimestamp_chain [OF assms(1)] show ?thesis
      by (simp add: getLastCommitTimestampForCategory_def Let_def)
  qed
  show "getLastCommitTimestampForMetadataFile E filePath =
           Inr (case gitLog E filePath of
                  Inr (Line (Some t)) \<Rightarrow> if validDate t then t else clock E filePath
                | _ \<Rightarrow> clock E filePath)"
    using logTimestamp_chain [OF assms(2)]
    by (simp add: getLastCommitTimestampForMetadataFile_def)
qed

theorem timestamp_fallback_chain_witness:
  "getLastCommitTimestampForCategory samplePlatform dirtyEnv (lit ''Dev & Ops'') = Inr 2000
   \<and> getLastCommitTimestampForCategory samplePlatform quietEnv (lit ''Dev & Ops'') = Inr 1000
   \<and> getLastCommitTimestampForMetadataFile quietEnv (lit ''repositories/a/metadata.json'') = Inr 1000"
proof -
  have d: "validDate (clock dirtyEnv p)" "gitStatus dirtyEnv p = Inr True" for p
    by (simp_all add: dirtyEnv_def quietEnv_def validDate_def)
  have q: "validDate (clock quietEnv p)" "gitStatus quietEnv p = Inr False"
      "gitLog quietEnv p = Inr (Line (Some 1000))" "clock dirtyEnv p = 2000" for p
    by (simp_all add: dirtyEnv_def quietEnv_def validDate_def)
  have v: "validDate 1000" by (simp add: validDate_def)
  from timestamp_fallback_chain [OF d(1) d(1), of samplePlatform "lit ''Dev & Ops''" "[]"]
    timestamp_fallback_chain [OF q(1) q(1), of samplePlatform "lit ''Dev & Ops''"
      "lit ''repositories/a/metadata.json''"]
  show ?thesis by (simp add: d q v)
qed

theorem uncommitted_changes_counterexample:
  "gitStatus dirtyEnv (lit ''repositories/a/metadata.json'') = Inr True
   \<and> clock dirtyEnv (lit ''repositories/a/metadata.json'') = 2000
   \<and> getLastCommitTimestampForMetadataFile dirtyEnv (lit ''repositories/a/metadata.json'') = Inr 1000"
  by (simp add: dirtyEnv_def quietEnv_def getLastCommitTimestampForMetadataFile_def
        logTimestamp_def toISOString_def validDate_def)

lemma allCategories_lastUpdated:
  assumes d: "d \<in> set (writtenAll (mainAll P E inp rel))" and c: "c \<in> set (allCategories d)"
  shows "apps c \<noteq> [] \<and> categoryLastUpdated c = Some (Max (lastUpdated ` set (apps c)))"
proof -
  obtain f where "(f, CategoryAllDoc d) \<in> set (written (mainAll P E inp rel))"
    using d by (auto simp: writtenAll_iff)
  from mainAll_categories [OF this c]
  obtain cats kc where o: "organizeAppsByCategory P (readAllMetadataFiles E (repositories inp)) = Inr cats"
    and kc: "kc \<in> set cats" "c = withLastUpdated (snd kc)"
    by blast
  have "wellFormedCategories P cats" using o by (rule organize_wellFormed)
  then have "wellFormedCategory P kc" using kc(1) by (rule wellFormedCategories_mem)
  then have ne: "apps c \<noteq> []" using kc(2) by (simp add: wellFormedCategory_def withLastUpdated_simps)
  then have "mathMax (map lastUpdated (apps c)) = Some (Max (set (map lastUpdated (apps c))))"
    by (intro mathMax_Max) simp
  with ne kc(2) show ?thesis by (simp add: withLastUpdated_simps getCategoryLastUpdated_def)
qed

text \<open>
  C2 (as amended). In the consolidated document every category has at least one app, and
  its \<open>lastUpdated\<close> is the maximum of the \<open>lastUpdated\<close> of its apps. In the index of
  generate-releases.js the \<open>lastUpdated\<close> of a category is the timestamp resolved for the
  release file of that category, whatever the timestamps of its member entries are.
\<close>

theorem category_lastUpdated:
  "(\<forall>d \<in> set (writtenAll (mainAll P E inp rel)). \<forall>c \<in> set (allCategories d).
      apps c \<noteq> [] \<and> categoryLastUpdated c = Some (Max (lastUpdated ` set (apps c))))
   \<and> (\<forall>d \<in> set (writtenIndexes (mainReleases P E inp rel)). \<forall>c \<in> set (categories d).
        getLastCommitTimestampForCategory P E (cdName c) = Inr (cdLastUpdated c))"
proof (intro conjI ballI)
  fix d c
  assume "d \<in> set (writtenAll (mainAll P E inp rel))" "c \<in> set (allCategories d)"
  then show "apps c \<noteq> []" "categoryLastUpdated c = Some (Max (lastUpdated ` set (apps c)))"
    using allCategories_lastUpdated by blast+
next
  fix d c
  assume "d \<in> set (writtenIndexes (mainReleases P E inp rel))" "c \<in> set (categories d)"
  then show "getLastCommitTimestampForCategory P E (cdName c) = Inr (cdLastUpdated c)"
    using index_category by blast
qed

theorem category_lastUpdated_witness:
  "map (\<lambda>c. (categoryLastUpdated c, map lastUpdated (apps c)))
       (concat (map allCategories (writtenAll (mainAll samplePlatform variedEnv threeApps (Some [])))))
     = [(Some 2857, [2832, 2857]), (Some 2852, [2852])]
   \<and> list_all (\<lambda>d. list_all (\<lambda>c. apps c \<noteq> []
                   \<and> categoryLastUpdated c = Some (Max (lastUpdated ` set (apps c))))
                 (allCategories d))
       (writtenAll (mainAll samplePlatform variedEnv threeApps (Some [])))
   \<and> list_all (\<lambda>d. list_all (\<lambda>c. getLastCommitTimestampForCategory samplePlatform variedEnv (cdName c)
                                  = Inr (cdLastUpdated c))
                 (categories d))
       (writtenIndexes (mainReleases samplePlatform variedEnv threeApps (Some [])))"
proof -
  have v: "map (\<lambda>c. (categoryLastUpdated c, map lastUpdated (apps c)))
       (concat (map allCategories (writtenAll (mainAll samplePlatform variedEnv threeApps (Some [])))))
     = [(Some 2857, [2832, 2857]), (Some 2852, [2852])]"
    by code_simp
  from category_lastUpdated [of samplePlatform variedEnv threeApps "Some []"]
  have "list_all (\<lambda>d. list_all (\<lambda>c. apps c \<noteq> []
                   \<and> categoryLastUpdated c = Some (Max (lastUpdated ` set (apps c))))
                 (allCategories d))
       (writtenAll (mainAll samplePlatform variedEnv threeApps (Some [])))"
    and "list_all (\<lambda>d. list_all (\<lambda>c. getLastCommitTimestampForCategory samplePlatform variedEnv (cdName c)
                                  = Inr (cdLastUpdated c))
                 (categories d))
       (writtenIndexes (mainReleases samplePlatform variedEnv threeApps (Some [])))"
    by (simp_all add: list_all_iff)
  with v show ?thesis by simp
qed

theorem category_lastUpdated_counterexample:
  "map cdLastUpdated (concat (map categories
      (writtenIndexes (mainReleases samplePlatform rewrittenEnv threeApps (Some [])))))
     = [2000, 2000]
   \<and> (case foundFiles threeApps of
        Inl e \<Rightarrow> []
      | Inr files \<Rightarrow>
          map (\<lambda>pc. (gitStatus rewrittenEnv (fst pc), gitLog rewrittenEnv (fst pc),
                      getLastCommitTimestampForMetadataFile rewrittenEnv (fst pc))) files)
     = [(Inr False, Inr (Line (Some 1000)), Inr 1000),
        (Inr False, Inr (Line (Some 1000)), Inr 1000),
        (Inr False, Inr (Line (Some 1000)), Inr 1000)]"
  by code_simp

section \<open>Properties of the entries\<close>

lemma release_apps_validated:
  assumes found: "foundFiles inp = Inr files"
    and fd: "(f, d) \<in> set (writtenReleases (mainReleases P E inp rel))"
    and a: "a \<in> set (releaseApps d)"
  shows "fromValidated P files a"
proof -
  obtain files' cats entry where fc: "foundFiles inp = Inr files'" "categorize P [] files' = Inr cats"
    and entry: "entry \<in> set cats" and rel: "releaseOf P entry (f, ReleaseDoc d)"
    using mainReleases_release [OF fd] by blast
  have files: "files' = files" using found fc(1) by simp
  obtain as where srt: "arraySort (\<lambda>a b. compareNames P (map_of a (lit ''name'')) (map_of b (lit ''name'')))
          (snd entry) = Inr as"
    and cl: "mapE (cleanApp P) as = Inr (releaseApps d)"
    using rel by (auto simp: releaseOf_def)
  obtain m where m: "m \<in> set as" "cleanApp P m = Inr a"
    using mapE_member [OF cl a] by blast
  have "set as = set (snd entry)" using srt by (rule arraySort_set)
  with m(1) have mem: "m \<in> set (snd entry)" by simp
  have e: "(fst entry, snd entry) \<in> set cats" using entry by simp
  from categorize_members [OF fc(2) e mem]
  obtain pc where pc: "pc \<in> set files" "loadMetadata (fst pc) (snd pc) = Some m"
    using files by auto
  have "list_all (fieldPresent m) requiredFields"
    using loadMetadata_Some [OF pc(2)] by blast
  with pc m(2) show ?thesis
    by (auto simp: fromValidated_def list_ex_iff intro!: bexI [of _ pc])
qed

text \<open>A file that parses is read, whatever its properties.\<close>

lemma map_filter_image: "x \<in> set xs \<Longrightarrow> f x = Some y \<Longrightarrow> y \<in> set (List.map_filter f xs)"
  by (induction xs) (auto simp: map_filter_simps split: option.splits)

lemma readAll_member:
  assumes mf: "mf \<in> set (findAllMetadataFiles n (lit ''repositories''))"
    and md: "content mf = Some md" and vc: "validDate (clock E (relativePath mf))"
  shows "\<exists>a \<in> set (readAllMetadataFiles E (Some n)).
           appMeta a = spread md \<and> appSlug a = slugOfDirectory (directoryPath mf)
           \<and> metadataPath a = normalizeSeparators (relativePath mf)"
proof -
  obtain t where "getLastCommitTimestampForMetadataFile E (relativePath mf) = Inr t"
    using logTimestamp_chain [OF vc] by (simp add: getLastCommitTimestampForMetadataFile_def)
  then have "readMetadataFile E mf
               = Some \<lparr>appMeta = spread md, appSlug = slugOfDirectory (directoryPath mf),
                       lastUpdated = t, metadataPath = normalizeSeparators (relativePath mf)\<rparr>"
    using md by (simp add: readMetadataFile_def)
  with mf have "\<lparr>appMeta = spread md, appSlug = slugOfDirectory (directoryPath mf),
                  lastUpdated = t, metadataPath = normalizeSeparators (relativePath mf)\<rparr>
                  \<in> set (readAllMetadataFiles E (Some n))"
    by (simp add: readAllMetadataFiles_def map_filter_image)
  then show ?thesis by force
qed

text \<open>
  C1 (as amended). In generate-releases.js a metadata object that lacks one of the eight
  required fields, or holds \<open>null\<close> or the empty string there, is not loaded, and every
  app of every release file written is the cleaned copy of an object that was loaded from
  one of the files found and holds all eight fields (the copy itself no longer has
  \<open>commit\<close>, \<open>owner\<close>, \<open>repo\<close>, \<open>path\<close> and \<open>category\<close>).
  generate-category-all.json.js checks no field: every metadata file found whose content
  parses gives an app that carries all the properties of that content, the clock being in
  the range of dates, and the categories of a consolidated document that is written hold
  exactly the apps read.
\<close>

theorem releases_only_validated:
  "(\<forall>files. foundFiles inp = Inr files \<longrightarrow>
      (\<forall>fd \<in> set (writtenReleases (mainReleases P E inp rel)).
         \<forall>a \<in> set (releaseApps (snd fd)). fromValidated P files a))
   \<and> (\<forall>filePath metadata. \<not> list_all (fieldPresent metadata) requiredFields
         \<longrightarrow> loadMetadata filePath (Some (JObj metadata)) = None)
   \<and> (\<forall>n. repositories inp = Some n \<longrightarrow>
         (\<forall>mf \<in> set (findAllMetadataFiles n (lit ''repositories'')).
            \<forall>md. content mf = Some md \<and> validDate (clock E (relativePath mf)) \<longrightarrow>
              (\<exists>a \<in> set (readAllMetadataFiles E (repositories inp)).
                 appMeta a = spread md \<and> appSlug a = slugOfDirectory (directoryPath mf)
                 \<and> metadataPath a = normalizeSeparators (relativePath mf))))
   \<and> (\<forall>d \<in> set (writtenAll (mainAll P E inp rel)).
         set (concat (map apps (allCategories d))) = set (readAllMetadataFiles E (repositories inp))
         \<and> allTotalApps d = length (readAllMetadataFiles E (repositories inp)))"
proof (intro conjI ballI allI impI)
  fix files fd a
  assume "foundFiles inp = Inr files"
    "fd \<in> set (writtenReleases (mainReleases P E inp rel))" "a \<in> set (releaseApps (snd fd))"
  then show "fromValidated P files a"
    using release_apps_validated [of inp files "fst fd" "snd fd" P E rel a] by simp
next
  fix filePath metadata
  assume "\<not> list_all (fieldPresent metadata) requiredFields"
  then show "loadMetadata filePath (Some (JObj metadata)) = None"
    by (rule loadMetadata_missing)
next
  fix n mf md
  assume n: "repositories inp = Some n"
    and mf: "mf \<in> set (findAllMetadataFiles n (lit ''repositories''))"
    and md: "content mf = Some md \<and> validDate (clock E (relativePath mf))"
  from md have "content mf = Some md" "validDate (clock E (relativePath mf))" by simp_all
  with mf show "\<exists>a \<in> set (readAllMetadataFiles E (repositories inp)).
                  appMeta a = spread md \<and> appSlug a = slugOfDirectory (directoryPath mf)
                  \<and> metadataPath a = normalizeSeparators (relativePath mf)"
    unfolding n by (rule readAll_member)
next
  fix d
  assume d: "d \<in> set (writtenAll (mainAll P E inp rel))"
  then show "set (concat (map apps (allCategories d))) = set (readAllMetadataFiles E (repositories inp))"
    by (rule allCategories_apps)
  show "allTotalApps d = length (readAllMetadataFiles E (repositories inp))"
    using d by (rule allCategories_content(5))
qed

theorem releases_only_validated_witness:
  "length (writtenReleases (mainReleases samplePlatform quietEnv threeApps (Some []))) = 2
   \<and> (case foundFiles threeApps of
         Inl e \<Rightarrow> False
       | Inr files \<Rightarrow>
           list_all (\<lambda>fd. list_all (fromValidated samplePlatform files) (releaseApps (snd fd)))
             (writtenReleases (mainReleases samplePlatform quietEnv threeApps (Some []))))
   \<and> written (mainReleases samplePlatform quietEnv noVersion (Some [])) = []
   \<and> loadMetadata (lit ''/w/repositories/a/metadata.json'')
        (Some (JObj (filter (\<lambda>kv. fst kv \<noteq> lit ''version'')
                       (sampleMetadata (JStr (lit ''Alpha'')) (JStr (lit ''Tools'')))))) = None
   \<and> list_ex (\<lambda>a. appMeta a = filter (\<lambda>kv. fst kv \<noteq> lit ''version'')
                                  (sampleMetadata (JStr (lit ''Alpha'')) (JStr (lit ''Tools''))))
        (readAllMetadataFiles quietEnv (repositories noVersion))
   \<and> length (writtenAll (mainAll samplePlatform quietEnv noVersion (Some []))) = 1
   \<and> list_all (\<lambda>d. set (concat (map apps (allCategories d)))
                     = set (readAllMetadataFiles quietEnv (repositories noVersion))
                   \<and> allTotalApps d = length (readAllMetadataFiles quietEnv (repositories noVersion)))
        (writtenAll (mainAll samplePlatform quietEnv noVersion (Some [])))"
proof -
  let ?md = "filter (\<lambda>kv. fst kv \<noteq> lit ''version'') (sampleMetadata (JStr (lit ''Alpha'')) (JStr (lit ''Tools'')))"
  let ?n = "Dir [(lit ''a'', Dir [(lit ''metadata.json'', File (Some (JObj ?md)))])]"
  let ?mf = "\<lparr>relativePath = pathJoin (pathJoin (lit ''repositories'') (lit ''a'')) (lit ''metadata.json''),
              directoryPath = pathJoin (lit ''repositories'') (lit ''a''),
              content = Some (JObj ?md)\<rparr>"
  have n: "length (writtenReleases (mainReleases samplePlatform quietEnv threeApps (Some []))) = 2
      \<and> written (mainReleases samplePlatform quietEnv noVersion (Some [])) = []
      \<and> length (writtenAll (mainAll samplePlatform quietEnv noVersion (Some []))) = 1"
    by code_simp
  have "\<not> isl (foundFiles threeApps)" by code_simp
  then obtain files where f: "foundFiles threeApps = Inr files"
    by (cases "foundFiles threeApps") simp_all
  note t3 = releases_only_validated [of threeApps samplePlatform quietEnv "Some []"]
  note tv = releases_only_validated [of noVersion samplePlatform quietEnv "Some []"]
  from t3 f
  have 1: "list_all (\<lambda>fd. list_all (fromValidated samplePlatform files) (releaseApps (snd fd)))
             (writtenReleases (mainReleases samplePlatform quietEnv threeApps (Some [])))"
    by (simp add: list_all_iff)
  have "\<not> list_all (fieldPresent ?md) requiredFields" by code_simp
  with tv have 2: "loadMetadata (lit ''/w/repositories/a/metadata.json'') (Some (JObj ?md)) = None"
    by blast
  have r: "repositories noVersion = Some ?n" by (simp add: noVersion_def sampleInput_def)
  have m: "?mf \<in> set (findAllMetadataFiles ?n (lit ''repositories''))" by simp
  have c: "content ?mf = Some (JObj ?md) \<and> validDate (clock quietEnv (relativePath ?mf))"
    by (simp add: quietEnv_def validDate_def)
  from tv r m c
  have "\<exists>a \<in> set (readAllMetadataFiles quietEnv (repositories noVersion)).
          appMeta a = spread (JObj ?md) \<and> appSlug a = slugOfDirectory (directoryPath ?mf)
          \<and> metadataPath a = normalizeSeparators (relativePath ?mf)"
    by blast
  then have 3: "list_ex (\<lambda>a. appMeta a = ?md) (readAllMetadataFiles quietEnv (repositories noVersion))"
    by (auto simp: list_ex_iff spread_def)
  from tv
  have 4: "list_all (\<lambda>d. set (concat (map apps (allCategories d)))
                     = set (readAllMetadataFiles quietEnv (repositories noVersion))
                   \<and> allTotalApps d = length (readAllMetadataFiles quietEnv (repositories noVersion)))
        (writtenAll (mainAll samplePlatform quietEnv noVersion (Some [])))"
    by (simp add: list_all_iff)
  from n f 1 2 3 4 show ?thesis by simp
qed

theorem consolidated_unvalidated_counterexample:
  "map (\<lambda>c. map (\<lambda>a. (map_of (appMeta a) (lit ''name''), map_of (appMeta a) (lit ''version'')))
              (apps c))
       (concat (map allCategories (writtenAll (mainAll samplePlatform quietEnv noVersion (Some [])))))
     = [[(Some (JStr (lit ''Alpha'')), None)]]"
  by code_simp

section \<open>Properties of the order\<close>

lemma codeUnitCompare_flip: "0 \<le> codeUnitCompare a b \<Longrightarrow> codeUnitCompare b a \<le> 0"
  by (induction a b rule: codeUnitCompare.induct) (simp_all split: if_splits)

lemma codeUnitCompare_trans:
  "codeUnitCompare a b \<le> 0 \<Longrightarrow> codeUnitCompare b c \<le> 0 \<Longrightarrow> codeUnitCompare a c \<le> 0"
proof (induction a b arbitrary: c rule: codeUnitCompare.induct)
  case 1
  then show ?case by simp
next
  case (2 y ys)
  then show ?case by (cases c) simp_all
next
  case (3 x xs)
  then show ?case by simp
next
  case (4 x xs y ys)
  show ?case
  proof (cases c)
    case Nil
    with 4 show ?thesis by simp
  next
    case (Cons z zs)
    show ?thesis
    proof (cases "x = y \<and> y = z")
      case True
      with 4 Cons show ?thesis by simp
    next
      case False
      with 4(2,3) Cons show ?thesis by (auto split: if_splits)
    qed
  qed
qed

lemma samplePlatform_consistent: "consistentCompare samplePlatform"
  unfolding consistentCompare_def samplePlatform_def
  using codeUnitCompare_flip codeUnitCompare_trans by auto

lemma map_of_filter_keys:
  "map_of (filter (\<lambda>kv. fst kv \<notin> S) a) k = (if k \<in> S then None else map_of a k)"
  by (induction a) auto

lemma name_not_stripped: "lit ''name'' \<notin> set strippedKeys"
  by (simp add: strippedKeys_def lit_def)

lemma cleanApp_name:
  assumes "cleanApp P m = Inr a"
  shows "map_of a (lit ''name'') = map_of m (lit ''name'')"
proof -
  have ne: "lit ''name'' \<noteq> lit ''slug''" "lit ''name'' \<noteq> lit ''supported-devices''"
      "lit ''name'' \<noteq> lit ''supported-screen-size''"
    by (simp_all add: lit_def)
  show ?thesis
    using assms ne
    by (auto simp: cleanApp_def Let_def map_of_setProp map_of_filter_keys name_not_stripped
             split: sum.splits option.splits if_splits)
qed

lemma cleanApp_nameKey: "cleanApp P m = Inr a \<Longrightarrow> nameKey P a = nameKey P m"
  by (simp add: nameKey_def cleanApp_name)

lemma list_all2_right: "list_all2 R xs ys \<Longrightarrow> y \<in> set ys \<Longrightarrow> \<exists>x \<in> set xs. R x y"
  by (induction rule: list_all2_induct) auto

lemma list_all2_left: "list_all2 R xs ys \<Longrightarrow> x \<in> set xs \<Longrightarrow> \<exists>y \<in> set ys. R x y"
  by (induction rule: list_all2_induct) auto

lemma sorted_wrt_list_all2:
  assumes "list_all2 R xs ys" and "sorted_wrt le xs"
    and "\<And>x y x' y'. R x y \<Longrightarrow> R x' y' \<Longrightarrow> le x x' \<Longrightarrow> le' y y'"
  shows "sorted_wrt le' ys"
  using assms(1,2)
proof (induction rule: list_all2_induct)
  case Nil
  show ?case by simp
next
  case (Cons x xs y ys)
  have "le' y y'" if y': "y' \<in> set ys" for y'
  proof -
    obtain x' where "x' \<in> set xs" "R x' y'"
      using list_all2_right [OF Cons.hyps(2) y'] by blast
    with Cons.prems Cons.hyps(1) show ?thesis using assms(3) [of x y x' y'] by simp
  qed
  with Cons show ?case by simp
qed

lemma release_apps_sorted_key:
  assumes c: "consistentCompare P"
    and fd: "(f, d) \<in> set (writtenReleases (mainReleases P E inp rel))"
  shows "sorted_wrt (byNameKey P) (releaseApps d)"
proof -
  let ?cmp = "\<lambda>a b. compareNames P (map_of a (lit ''name'')) (map_of b (lit ''name''))"
  obtain entry where rel: "releaseOf P entry (f, ReleaseDoc d)"
    using mainReleases_release [OF fd] by blast
  then obtain as where srt: "arraySort ?cmp (snd entry) = Inr as"
    and cl: "mapE (cleanApp P) as = Inr (releaseApps d)"
    by (auto simp: releaseOf_def)
  have l2: "list_all2 (\<lambda>x y. cleanApp P x = Inr y) as (releaseApps d)"
    using cl by (rule mapE_Inr)
  have "sorted_wrt (byNameKey P) as"
  proof (rule arraySort_result_sorted [of "byNameKey P" ?cmp])
    show "byNameKey P a d" if "byNameKey P a b" "byNameKey P b d" for a b d
      using c that by (rule byNameKey_trans)
    show "(n < 0 \<longrightarrow> byNameKey P a b) \<and> (0 \<le> n \<longrightarrow> byNameKey P b a)" if "?cmp a b = Inr n" for a b n
      using c that by (rule compareNames_byNameKey)
    show "arraySort ?cmp (snd entry) = Inr as" by (rule srt)
  qed
  with l2 show ?thesis
  proof (rule sorted_wrt_list_all2)
    show "byNameKey P y y'" if "cleanApp P x = Inr y" "cleanApp P x' = Inr y'" "byNameKey P x x'"
      for x y x' y'
    proof -
      have "nameKey P y = nameKey P x" "nameKey P y' = nameKey P x'"
        using that(1,2) by (simp_all add: cleanApp_nameKey)
      with that(3) show ?thesis by (auto simp: byNameKey_def split: sum.splits)
    qed
  qed
qed

text \<open>The apps of a release: the cleaned copies of the entries of its category, reordered.\<close>

lemma release_apps_content:
  assumes fd: "(f, d) \<in> set (writtenReleases (mainReleases P E inp rel))"
  shows "case foundFiles inp of
           Inl e \<Rightarrow> False
         | Inr files \<Rightarrow>
             (case categorize P [] files of
                Inl e \<Rightarrow> False
              | Inr cats \<Rightarrow>
                  (\<exists>ms as. (releaseCategory d, ms) \<in> set cats
                     \<and> (\<forall>x. count_list as x = count_list ms x)
                     \<and> mapE (cleanApp P) as = Inr (releaseApps d)
                     \<and> releaseCount d = length ms))"
proof -
  let ?cmp = "\<lambda>a b. compareNames P (map_of a (lit ''name'')) (map_of b (lit ''name''))"
  obtain files cats entry where fc: "foundFiles inp = Inr files" "categorize P [] files = Inr cats"
    and entry: "entry \<in> set cats" and rel: "releaseOf P entry (f, ReleaseDoc d)"
    using mainReleases_release [OF fd] by blast
  obtain as where srt: "arraySort ?cmp (snd entry) = Inr as"
    and cl: "mapE (cleanApp P) as = Inr (releaseApps d)"
    and cat: "releaseCategory d = fst entry" and cnt: "releaseCount d = length as"
    using rel by (auto simp: releaseOf_def)
  have "(releaseCategory d, snd entry) \<in> set cats" using entry cat by simp
  moreover have "\<forall>x. count_list as x = count_list (snd entry) x"
    using srt by (simp add: arraySort_count)
  moreover have "releaseCount d = length (snd entry)"
    using cnt arraySort_length [OF srt] by simp
  ultimately have "\<exists>ms as. (releaseCategory d, ms) \<in> set cats
                     \<and> (\<forall>x. count_list as x = count_list ms x)
                     \<and> mapE (cleanApp P) as = Inr (releaseApps d)
                     \<and> releaseCount d = length ms"
    using cl by blast
  with fc show ?thesis by simp
qed

lemma index_categories_sorted:
  assumes c: "consistentCompare P"
    and d: "d \<in> set (writtenIndexes (mainReleases P E inp rel))"
  shows "sorted_wrt (\<lambda>a b. localeCompare P (cdName a) (cdName b) \<le> 0) (categories d)"
proof -
  let ?le = "\<lambda>a b. localeCompare P (cdName a) (cdName b) \<le> 0"
  let ?cmp = "\<lambda>a b. Inr (localeCompare P (cdName a) (cdName b))"
  obtain cats cs f where "indexOf P E cats cs (f, CategoriesDoc d)"
    using mainReleases_index [OF d] by blast
  then obtain cds where s: "arraySort ?cmp cds = Inr (categories d)"
    by (auto simp: indexOf_def)
  have tr: "\<And>x y z. localeCompare P x y \<le> 0 \<Longrightarrow> localeCompare P y z \<le> 0 \<Longrightarrow> localeCompare P x z \<le> 0"
    and sym: "\<And>x y. 0 \<le> localeCompare P x y \<Longrightarrow> localeCompare P y x \<le> 0"
    using c unfolding consistentCompare_def by blast+
  have "\<exists>zs. arraySort ?cmp cds = Inr zs \<and> sorted_wrt ?le zs"
  proof (rule arraySort_sorted [of ?le])
    show "?le x z" if "?le x y" "?le y z" for x y z :: categoryData
      using that by (rule tr)
    show "\<exists>n. ?cmp x y = Inr n \<and> (n < 0 \<longrightarrow> ?le x y) \<and> (0 \<le> n \<longrightarrow> ?le y x)"
      for x y :: categoryData
      using sym [of "cdName x" "cdName y"] by simp
  qed
  with s show ?thesis by simp
qed

text \<open>When the consolidated document is written.\<close>

lemma mainAll_writes:
  assumes ne: "readAllMetadataFiles E (repositories inp) \<noteq> []"
    and org: "\<not> isl (organizeAppsByCategory P (readAllMetadataFiles E (repositories inp)))"
    and rel: "rel \<noteq> None" and wr: "\<not> writeFails E (lit ''category-all.json'')"
  shows "length (writtenAll (mainAll P E inp rel)) = 1"
proof -
  let ?as = "readAllMetadataFiles E (repositories inp)"
  obtain cats where cats: "organizeAppsByCategory P ?as = Inr cats"
    using org by (cases "organizeAppsByCategory P ?as") simp_all
  have "\<exists>zs. arraySort (compareCategories P) (map (\<lambda>kc. withLastUpdated (snd kc)) (ownEntries cats)) = Inr zs
          \<and> sorted_wrt (\<lambda>a b. True) zs"
    by (rule arraySort_sorted [of "\<lambda>a b. True"]) (simp_all add: compareCategories_def)
  then obtain cs where cs: "arraySort (compareCategories P)
      (map (\<lambda>kc. withLastUpdated (snd kc)) (ownEntries cats)) = Inr cs"
    by blast
  obtain fs where fs: "rel = Some fs" using rel by auto
  let ?d = "CategoryAllDoc \<lparr>generated = generatedAt E, allTotalCategories = length cs,
              allTotalApps = length ?as, allCategories = cs\<rparr>"
  have "written (mainAll P E inp rel) = [(lit ''category-all.json'', ?d)]"
    using ne cats cs fs wr
    by (cases "mapE summaryLine cs") (simp_all add: mainAll_def writeFileSync_def Let_def)
  then show ?thesis by (simp add: writtenAll_def)
qed

text \<open>
  C7 (as amended). Let \<open>localeCompare\<close> be a total preorder. The consolidated
  document is written when at least one app was read, the grouping returns and the write
  does not fail. In every consolidated document written the categories are sorted by
  name, there is one category for each category key of the apps read, and the apps of a
  category are the apps read under its key, reordered so that they are sorted by name as
  the comparator reads a name: converted to a string, a missing name being
  \<open>undefined\<close>. In every release file written by generate-releases.js the apps are
  the cleaned copies of the entries of the category, reordered so that they are sorted in
  the same way, and in its index the categories are sorted by name. For two names that
  are strings, this order is the order of the names.
\<close>

theorem outputs_sorted_by_name:
  assumes "consistentCompare P"
  shows "(readAllMetadataFiles E (repositories inp) \<noteq> []
          \<and> \<not> isl (organizeAppsByCategory P (readAllMetadataFiles E (repositories inp)))
          \<and> rel \<noteq> None \<and> \<not> writeFails E (lit ''category-all.json'')
          \<longrightarrow> length (writtenAll (mainAll P E inp rel)) = 1)
       \<and> (\<forall>d \<in> set (writtenAll (mainAll P E inp rel)).
            sorted_wrt (\<lambda>a b. localeCompare P (name a) (name b) \<le> 0) (allCategories d)
            \<and> distinct (map name (allCategories d))
            \<and> Inr ` name ` set (allCategories d)
                = categoryKey P ` set (readAllMetadataFiles E (repositories inp))
            \<and> (\<forall>c \<in> set (allCategories d).
                  sorted_wrt (\<lambda>a b. byNameKey P (appMeta a) (appMeta b)) (apps c)
                  \<and> (\<forall>x. count_list (apps c) x
                           = count_list (filter (\<lambda>a. categoryKey P a = Inr (name c))
                                           (readAllMetadataFiles E (repositories inp))) x)))
       \<and> (\<forall>fd \<in> set (writtenReleases (mainReleases P E inp rel)).
            sorted_wrt (byNameKey P) (releaseApps (snd fd))
            \<and> (case foundFiles inp of
                  Inl e \<Rightarrow> False
                | Inr files \<Rightarrow>
                    (case categorize P [] files of
                       Inl e \<Rightarrow> False
                     | Inr cats \<Rightarrow>
                         (\<exists>ms as. (releaseCategory (snd fd), ms) \<in> set cats
                            \<and> (\<forall>x. count_list as x = count_list ms x)
                            \<and> mapE (cleanApp P) as = Inr (releaseApps (snd fd))
                            \<and> releaseCount (snd fd) = length ms))))
       \<and> (\<forall>d \<in> set (writtenIndexes (mainReleases P E inp rel)).
            sorted_wrt (\<lambda>a b. localeCompare P (cdName a) (cdName b) \<le> 0) (categories d))
       \<and> (\<forall>a b. stringName a \<noteq> None \<and> stringName b \<noteq> None
            \<longrightarrow> byNameKey P a b = byName P a b)"
proof (intro conjI ballI allI impI)
  assume "readAllMetadataFiles E (repositories inp) \<noteq> []
          \<and> \<not> isl (organizeAppsByCategory P (readAllMetadataFiles E (repositories inp)))
          \<and> rel \<noteq> None \<and> \<not> writeFails E (lit ''category-all.json'')"
  then show "length (writtenAll (mainAll P E inp rel)) = 1"
    by (simp add: mainAll_writes)
next
  fix d
  assume d: "d \<in> set (writtenAll (mainAll P E inp rel))"
  then obtain f where "(f, CategoryAllDoc d) \<in> set (written (mainAll P E inp rel))"
    by (auto simp: writtenAll_iff)
  then show "sorted_wrt (\<lambda>a b. localeCompare P (name a) (name b) \<le> 0) (allCategories d)"
    using assms by (rule mainAll_categories_sorted)
  show "distinct (map name (allCategories d))"
    using d by (rule allCategories_content(1))
  show "Inr ` name ` set (allCategories d)
          = categoryKey P ` set (readAllMetadataFiles E (repositories inp))"
    using d by (rule allCategories_content(2))
  fix c
  assume c: "c \<in> set (allCategories d)"
  show "sorted_wrt (\<lambda>a b. byNameKey P (appMeta a) (appMeta b)) (apps c)"
    using d assms c by (rule allCategories_content(4))
  fix x
  show "count_list (apps c) x
          = count_list (filter (\<lambda>a. categoryKey P a = Inr (name c))
                          (readAllMetadataFiles E (repositories inp))) x"
    using d c by (rule allCategories_content(3))
next
  fix fd
  assume fd: "fd \<in> set (writtenReleases (mainReleases P E inp rel))"
  then have m: "(fst fd, snd fd) \<in> set (writtenReleases (mainReleases P E inp rel))" by simp
  show "sorted_wrt (byNameKey P) (releaseApps (snd fd))"
    using assms m by (rule release_apps_sorted_key)
  show "case foundFiles inp of
          Inl e \<Rightarrow> False
        | Inr files \<Rightarrow>
            (case categorize P [] files of
               Inl e \<Rightarrow> False
             | Inr cats \<Rightarrow>
                 (\<exists>ms as. (releaseCategory (snd fd), ms) \<in> set cats
                    \<and> (\<forall>x. count_list as x = count_list ms x)
                    \<and> mapE (cleanApp P) as = Inr (releaseApps (snd fd))
                    \<and> releaseCount (snd fd) = length ms))"
    using m by (rule release_apps_content)
next
  fix d
  assume "d \<in> set (writtenIndexes (mainReleases P E inp rel))"
  with assms show "sorted_wrt (\<lambda>a b. localeCompare P (cdName a) (cdName b) \<le> 0) (categories d)"
    by (rule index_categories_sorted)
next
  fix a b
  assume "stringName a \<noteq> None \<and> stringName b \<noteq> None"
  then show "byNameKey P a b = byName P a b" by (simp add: byNameKey_byName)
qed

theorem outputs_sorted_by_name_witness:
  "length (writtenAll (mainAll samplePlatform quietEnv threeApps (Some []))) = 1
   \<and> map (\<lambda>c. (name c, map (\<lambda>a. map_of (appMeta a) (lit ''name'')) (apps c)))
       (concat (map allCategories (writtenAll (mainAll samplePlatform quietEnv threeApps (Some [])))))
     = [(lit ''Dev & Ops'', [Some (JStr (lit ''Alpha'')), Some (JStr (lit ''Zeta''))]),
        (lit ''Utilities'', [Some (JStr (lit ''Beta''))])]
   \<and> map (\<lambda>fd. (releaseCategory (snd fd), map (\<lambda>a. map_of a (lit ''name'')) (releaseApps (snd fd))))
       (writtenReleases (mainReleases samplePlatform quietEnv threeApps (Some [])))
     = [(lit ''Utilities'', [Some (JStr (lit ''Beta''))]),
        (lit ''Dev & Ops'', [Some (JStr (lit ''Alpha'')), Some (JStr (lit ''Zeta''))])]
   \<and> map (map cdName \<circ> categories)
       (writtenIndexes (mainReleases samplePlatform quietEnv threeApps (Some [])))
     = [[lit ''Dev & Ops'', lit ''Utilities'']]
   \<and> list_all (\<lambda>d. sorted_wrt (\<lambda>a b. localeCompare samplePlatform (name a) (name b) \<le> 0)
                  (allCategories d)
                \<and> distinct (map name (allCategories d))
                \<and> list_all (\<lambda>c. sorted_wrt (\<lambda>a b. byNameKey samplePlatform (appMeta a) (appMeta b))
                                  (apps c))
                     (allCategories d))
       (writtenAll (mainAll samplePlatform quietEnv threeApps (Some [])))
   \<and> list_all (\<lambda>fd. sorted_wrt (byNameKey samplePlatform) (releaseApps (snd fd)))
       (writtenReleases (mainReleases samplePlatform quietEnv threeApps (Some [])))
   \<and> list_all (\<lambda>d. sorted_wrt (\<lambda>a b. localeCompare samplePlatform (cdName a) (cdName b) \<le> 0)
                  (categories d))
       (writtenIndexes (mainReleases samplePlatform quietEnv threeApps (Some [])))
   \<and> byNameKey samplePlatform (sampleMetadata (JStr (lit ''Alpha'')) JNull)
         (sampleMetadata (JStr (lit ''Beta'')) JNull)
       = byName samplePlatform (sampleMetadata (JStr (lit ''Alpha'')) JNull)
           (sampleMetadata (JStr (lit ''Beta'')) JNull)"
proof -
  let ?a = "mainAll samplePlatform quietEnv threeApps (Some [])"
  let ?r = "mainReleases samplePlatform quietEnv threeApps (Some [])"
  have va: "map (\<lambda>c. (name c, map (\<lambda>a. map_of (appMeta a) (lit ''name'')) (apps c)))
       (concat (map allCategories (writtenAll ?a)))
     = [(lit ''Dev & Ops'', [Some (JStr (lit ''Alpha'')), Some (JStr (lit ''Zeta''))]),
        (lit ''Utilities'', [Some (JStr (lit ''Beta''))])]"
    by code_simp
  have vr: "map (\<lambda>fd. (releaseCategory (snd fd), map (\<lambda>a. map_of a (lit ''name'')) (releaseApps (snd fd))))
       (writtenReleases ?r)
     = [(lit ''Utilities'', [Some (JStr (lit ''Beta''))]),
        (lit ''Dev & Ops'', [Some (JStr (lit ''Alpha'')), Some (JStr (lit ''Zeta''))])]
   \<and> map (map cdName \<circ> categories) (writtenIndexes ?r) = [[lit ''Dev & Ops'', lit ''Utilities'']]"
    by code_simp
  have s: "stringName (sampleMetadata (JStr (lit ''Alpha'')) JNull) \<noteq> None
      \<and> stringName (sampleMetadata (JStr (lit ''Beta'')) JNull) \<noteq> None"
    by (simp add: stringName_def sampleMetadata_def)
  note t = outputs_sorted_by_name [OF samplePlatform_consistent, of quietEnv threeApps "Some []"]
  have "readAllMetadataFiles quietEnv (repositories threeApps) \<noteq> []
      \<and> \<not> isl (organizeAppsByCategory samplePlatform
                  (readAllMetadataFiles quietEnv (repositories threeApps)))"
    by code_simp
  moreover have "Some ([] :: releases) \<noteq> None \<and> \<not> writeFails quietEnv (lit ''category-all.json'')"
    by (simp add: quietEnv_def)
  ultimately have w: "length (writtenAll ?a) = 1" using t by blast
  from t have "list_all (\<lambda>d. sorted_wrt (\<lambda>a b. localeCompare samplePlatform (name a) (name b) \<le> 0)
                  (allCategories d)
                \<and> distinct (map name (allCategories d))
                \<and> list_all (\<lambda>c. sorted_wrt (\<lambda>a b. byNameKey samplePlatform (appMeta a) (appMeta b))
                                  (apps c))
                     (allCategories d))
       (writtenAll ?a)"
    by (simp add: list_all_iff)
  moreover from t
  have "list_all (\<lambda>fd. sorted_wrt (byNameKey samplePlatform) (releaseApps (snd fd))) (writtenReleases ?r)"
    by (simp add: list_all_iff)
  moreover from t
  have "list_all (\<lambda>d. sorted_wrt (\<lambda>a b. localeCompare samplePlatform (cdName a) (cdName b) \<le> 0)
                  (categories d)) (writtenIndexes ?r)"
    by (simp add: list_all_iff)
  moreover from t s
  have "byNameKey samplePlatform (sampleMetadata (JStr (lit ''Alpha'')) JNull)
         (sampleMetadata (JStr (lit ''Beta'')) JNull)
       = byName samplePlatform (sampleMetadata (JStr (lit ''Alpha'')) JNull)
           (sampleMetadata (JStr (lit ''Beta'')) JNull)"
    by blast
  ultimately show ?thesis using w va vr by simp
qed

theorem unnamed_app_counterexample:
  "exitCode (mainAll samplePlatform quietEnv namelessFirst (Some [])) = 0
   \<and> map (\<lambda>c. map (\<lambda>a. stringName (appMeta a)) (apps c))
       (concat (map allCategories (writtenAll (mainAll samplePlatform quietEnv namelessFirst (Some [])))))
     = [[Some (lit ''Alpha''), Some (lit ''Beta''), None]]
   \<and> exitCode (mainReleases samplePlatform quietEnv numberNameFirst (Some [])) = 0
   \<and> map (\<lambda>fd. map stringName (releaseApps (snd fd)))
       (writtenReleases (mainReleases samplePlatform quietEnv numberNameFirst (Some [])))
     = [[None, Some (lit ''Alpha''), Some (lit ''Beta'')]]
   \<and> \<not> list_all (\<lambda>c. sorted_wrt (\<lambda>a b. byName samplePlatform (appMeta a) (appMeta b)) (apps c))
          (concat (map allCategories (writtenAll (mainAll samplePlatform quietEnv namelessFirst (Some [])))))"
  by code_simp

section \<open>Properties of the runs\<close>




text \<open>
  C8 (the code departs from it). A metadata file whose category is the number 5 ends the
  run of generate-category-all.json.js with exit code 1 before anything is written, and so
  do two files of one category that both lack a name. A file whose category is the string
  \<open>constructor\<close> does the same to generate-releases.js, although every required
  field of that file is a non-empty string.
\<close>

theorem malformed_entry_aborts_run:
  "mainAll samplePlatform quietEnv numberCategory (Some [])
     = \<lparr>exitCode = 1, written = [], removed = [], releasesAfter = Some []\<rparr>
   \<and> mainAll samplePlatform quietEnv twoNameless (Some [])
     = \<lparr>exitCode = 1, written = [], removed = [], releasesAfter = Some []\<rparr>
   \<and> mainReleases samplePlatform quietEnv constructorCategory (Some [])
     = \<lparr>exitCode = 1, written = [], removed = [], releasesAfter = Some []\<rparr>"
  by code_simp

subsection \<open>Exit codes\<close>

lemma arraySort_total:
  assumes "\<And>x y. \<exists>n. cmp x y = Inr n"
  shows "\<exists>zs. arraySort cmp xs = Inr zs"
proof -
  have "\<exists>zs. arraySort cmp xs = Inr zs \<and> sorted_wrt (\<lambda>a b. True) zs"
  proof (rule arraySort_sorted [of "\<lambda>a b. True"])
    show "\<exists>n. cmp x y = Inr n \<and> (n < 0 \<longrightarrow> True) \<and> (0 \<le> n \<longrightarrow> True)" for x y
      using assms [of x y] by simp
  qed simp
  then show ?thesis by blast
qed

lemma metadataTimestamp_valid:
  assumes "getLastCommitTimestampForMetadataFile E p = Inr t"
  shows "validDate t"
proof -
  have cur: "validDate u" if "currentTime E p = Inr u" for u
    using that by (simp add: currentTime_def toISOString_def split: if_splits)
  have log: "validDate u" if "logTimestamp E p = Inr u" for u
    using that cur
    by (auto simp: logTimestamp_def toISOString_def
             split: sum.splits log_stdout.splits option.splits if_splits)
  show ?thesis
  proof (cases "logTimestamp E p")
    case (Inl e)
    with assms cur show ?thesis by (simp add: getLastCommitTimestampForMetadataFile_def)
  next
    case (Inr u)
    with assms log show ?thesis by (simp add: getLastCommitTimestampForMetadataFile_def)
  qed
qed

lemma readMetadataFile_valid: "readMetadataFile E mf = Some a \<Longrightarrow> validDate (lastUpdated a)"
  by (auto simp: readMetadataFile_def split: option.splits sum.splits dest: metadataTimestamp_valid)

lemma map_filter_member: "y \<in> set (List.map_filter f xs) \<Longrightarrow> \<exists>x \<in> set xs. f x = Some y"
  by (induction xs) (auto split: option.splits)

lemma readAll_valid:
  assumes "a \<in> set (readAllMetadataFiles E root)"
  shows "validDate (lastUpdated a)"
proof (cases root)
  case None
  with assms show ?thesis by (simp add: readAllMetadataFiles_def)
next
  case (Some n)
  with assms obtain mf where "readMetadataFile E mf = Some a"
    by (auto simp: readAllMetadataFiles_def dest: map_filter_member)
  then show ?thesis by (rule readMetadataFile_valid)
qed

lemma addApp_members:
  assumes step: "addApp P cats a = Inr cats'" and mem: "(k, c) \<in> set cats'" and x: "x \<in> set (apps c)"
  shows "x = a \<or> (\<exists>c0. (k, c0) \<in> set cats \<and> x \<in> set (apps c0))"
proof (cases "toStr P (Some (categoryNameOf a))")
  case (Inl e)
  with step show ?thesis by (simp add: addApp_def)
next
  case (Inr key)
  show ?thesis
  proof (cases "map_of cats key")
    case (Some c0)
    let ?c = "c0\<lparr>count := count c0 + 1, apps := apps c0 @ [a]\<rparr>"
    have cats': "cats' = setProp key ?c cats"
      using step Inr Some by (simp add: addApp_def)
    have old: "(key, c0) \<in> set cats" using Some by (rule map_of_SomeD)
    have "(k, c) = (key, ?c) \<or> (k, c) \<in> set cats"
      using mem set_setProp [of "(k, c)" key ?c cats] unfolding cats' by blast
    with old x show ?thesis by auto
  next
    case None
    show ?thesis
    proof (cases "key \<in> set objectPrototypeKeys")
      case True
      with step Inr None show ?thesis by (simp add: addApp_def)
    next
      case False
      show ?thesis
      proof (cases "categoryNameOf a")
        case (JStr categoryName)
        with step Inr None False
        have "cats' = cats @ [(key, \<lparr>name = categoryName, slug = slugAll P categoryName,
                                        count = 1, apps = [a]\<rparr>)]"
          by (simp add: addApp_def)
        with mem x show ?thesis by auto
      qed (use step Inr None False in \<open>simp_all add: addApp_def\<close>)
    qed
  qed
qed

lemma addApps_members:
  "addApps P cats as = Inr cats' \<Longrightarrow> (k, c) \<in> set cats' \<Longrightarrow> x \<in> set (apps c)
     \<Longrightarrow> x \<in> set as \<or> (\<exists>c0. (k, c0) \<in> set cats \<and> x \<in> set (apps c0))"
proof (induction as arbitrary: cats)
  case Nil
  then show ?case by auto
next
  case (Cons a as)
  show ?case
  proof (cases "addApp P cats a")
    case (Inl e)
    with Cons.prems show ?thesis by simp
  next
    case (Inr cats1)
    with Cons.prems have "addApps P cats1 as = Inr cats'" by simp
    from Cons.IH [OF this Cons.prems(2,3)]
    show ?thesis
    proof
      assume "x \<in> set as"
      then show ?thesis by simp
    next
      assume "\<exists>c0. (k, c0) \<in> set cats1 \<and> x \<in> set (apps c0)"
      then obtain c0 where "(k, c0) \<in> set cats1" "x \<in> set (apps c0)" by blast
      with Inr have "x = a \<or> (\<exists>c0. (k, c0) \<in> set cats \<and> x \<in> set (apps c0))"
        by (rule addApp_members)
      then show ?thesis by auto
    qed
  qed
qed

lemma organize_members:
  assumes org: "organizeAppsByCategory P as = Inr cats" and mem: "kc \<in> set cats"
    and x: "x \<in> set (apps (snd kc))"
  shows "x \<in> set as"
proof (cases "addApps P [] as")
  case (Inl e)
  with org show ?thesis by (simp add: organizeAppsByCategory_def)
next
  case (Inr cats0)
  have m: "mapE (sortCategoryApps P) cats0 = Inr cats"
    using org Inr by (simp add: organizeAppsByCategory_def)
  obtain kc0 where kc0: "kc0 \<in> set cats0" "sortCategoryApps P kc0 = Inr kc"
    using mapE_member [OF m mem] by blast
  have "set (apps (snd kc)) = set (apps (snd kc0))"
    using sortCategoryApps_Inr [OF kc0(2)] by (auto dest: arraySort_set)
  with x have x0: "x \<in> set (apps (snd kc0))" by simp
  have "(fst kc0, snd kc0) \<in> set cats0" using kc0(1) by simp
  from addApps_members [OF Inr this x0] show ?thesis by simp
qed

lemma mainAll_exitCode:
  "exitCode (mainAll P E inp rel) = 0 \<longleftrightarrow>
     (readAllMetadataFiles E (repositories inp) = []
      \<or> (\<not> isl (organizeAppsByCategory P (readAllMetadataFiles E (repositories inp)))
          \<and> rel \<noteq> None \<and> \<not> writeFails E (lit ''category-all.json'')))"
proof -
  let ?as = "readAllMetadataFiles E (repositories inp)"
  show ?thesis
  proof (cases "?as = []")
    case True
    then show ?thesis by (simp add: mainAll_def)
  next
    case ne: False
    show ?thesis
    proof (cases "organizeAppsByCategory P ?as")
      case (Inl e)
      with ne show ?thesis by (simp add: mainAll_def)
    next
      case (Inr cats)
      let ?cs = "map (\<lambda>kc. withLastUpdated (snd kc)) (ownEntries cats)"
      have "\<exists>zs. arraySort (compareCategories P) ?cs = Inr zs"
        by (rule arraySort_total) (simp add: compareCategories_def)
      then obtain cs where cs: "arraySort (compareCategories P) ?cs = Inr cs" by blast
      have wf: "wellFormedCategories P cats" using Inr by (rule organize_wellFormed)
      have "\<exists>u. summaryLine c = Inr u" if c: "c \<in> set cs" for c
      proof -
        have "set cs = set ?cs" using cs by (rule arraySort_set)
        with c obtain kc where kc: "kc \<in> set cats" "c = withLastUpdated (snd kc)"
          by (auto simp: set_ownEntries)
        have "wellFormedCategory P kc" using wf kc(1) by (rule wellFormedCategories_mem)
        then have ne': "apps (snd kc) \<noteq> []" by (simp add: wellFormedCategory_def)
        then have mx: "mathMax (map lastUpdated (apps (snd kc)))
                         = Some (Max (set (map lastUpdated (apps (snd kc)))))"
          by (intro mathMax_Max) simp
        have "Max (set (map lastUpdated (apps (snd kc)))) \<in> set (map lastUpdated (apps (snd kc)))"
          using ne' by (intro Max_in) simp_all
        then obtain a where a: "a \<in> set (apps (snd kc))"
          "lastUpdated a = Max (set (map lastUpdated (apps (snd kc))))"
          by auto
        have "a \<in> set ?as" using Inr kc(1) a(1) by (rule organize_members)
        then have "validDate (lastUpdated a)" by (rule readAll_valid)
        with a(2) mx kc(2) show ?thesis
          by (simp add: summaryLine_def withLastUpdated_simps getCategoryLastUpdated_def
                toISOString_def)
      qed
      then have "\<exists>us. mapE summaryLine cs = Inr us" by (rule mapE_total)
      then obtain us where us: "mapE summaryLine cs = Inr us" by blast
      show ?thesis
        using ne Inr cs us
        by (cases rel) (simp_all add: mainAll_def writeFileSync_def Let_def)
    qed
  qed
qed

subsection \<open>A run that reaches its end\<close>

lemma mainReleases_completed:
  assumes found: "foundFiles inp = Inr files" and ne: "files \<noteq> []"
    and ok: "exitCode (mainReleases P E inp rel) = 0"
  shows "\<exists>cats (st :: progress).
           categorize P [] files = Inr cats
         \<and> written (mainReleases P E inp rel) = writtenSoFar st
         \<and> removed (mainReleases P E inp rel)
             = snd (removeObsolete E (releaseFiles st) (existingReleaseFiles (releasesNow st))
                      (releasesNow st, []))
         \<and> releasesAfter (mainReleases P E inp rel)
             = Some (fst (removeObsolete E (releaseFiles st) (existingReleaseFiles (releasesNow st))
                            (releasesNow st, [])))
         \<and> fst ` set (case rel of None \<Rightarrow> [] | Some fs \<Rightarrow> fs) \<subseteq> fst ` set (releasesNow st)
         \<and> set (releaseFiles st) \<subseteq> fst ` set (writtenSoFar st)
         \<and> (\<forall>fd \<in> set (writtenSoFar st).
               (\<exists>entry \<in> set cats. fst fd = releaseFileName P (fst entry))
               \<or> fst fd = lit ''categories.json'')
         \<and> (\<forall>entry \<in> set cats. \<not> writeFails E (releaseFileName P (fst entry))
               \<longrightarrow> releaseFileName P (fst entry) \<in> fst ` set (writtenSoFar st))"
proof (cases "joinValidCategories P (loadValidCategories (categoriesJson inp))")
  case (Inl e)
  with ok show ?thesis by (simp add: mainReleases_def)
next
  case j: (Inr v)
  show ?thesis
  proof (cases "categorize P [] files")
    case (Inl e)
    with ok j found ne show ?thesis by (simp add: mainReleases_def)
  next
    case c: (Inr cats)
    show ?thesis
    proof (cases "rel = None \<and> mkdirFails E")
      case True
      with ok j found ne c show ?thesis by (simp add: mainReleases_def)
    next
      case mk: False
      let ?fs = "case rel of None \<Rightarrow> [] | Some fs \<Rightarrow> fs"
      let ?st0 = "\<lparr>releasesNow = ?fs, releaseFiles = [], categoriesWithReleases = [], writtenSoFar = []\<rparr>"
      obtain st r where g: "generateReleases P E ?st0 (ownEntries cats) = (st, r)"
        by (cases "generateReleases P E ?st0 (ownEntries cats)")
      have "progressOk P (fst ` set ?fs) ({} \<union> set (ownEntries cats)) st"
        using progressOk_initial g by (rule generateReleases_progress)
      then have p: "progressOk P (fst ` set ?fs) (set cats) st" by (simp add: set_ownEntries)
      have r: "r = None"
        using ok j found ne c mk g by (cases r) (simp_all add: mainReleases_def crashed_def)
      show ?thesis
      proof (cases "writeCategories P E cats st")
        case (Inl e)
        with ok j found ne c mk g r show ?thesis by (simp add: mainReleases_def crashed_def)
      next
        case wc: (Inr st')
        have rd: "\<not> readdirFails E"
          using ok j found ne c mk g r wc
          by (cases "readdirFails E") (simp_all add: mainReleases_def crashed_def)
        let ?r = "removeObsolete E (releaseFiles st') (existingReleaseFiles (releasesNow st'))
                    (releasesNow st', [])"
        have out: "written (mainReleases P E inp rel) = writtenSoFar st'"
          "removed (mainReleases P E inp rel) = snd ?r"
          "releasesAfter (mainReleases P E inp rel) = Some (fst ?r)"
          using j found ne c mk g r wc rd by (auto simp: mainReleases_def Let_def)
        have base: "fst ` set (releasesNow st) = fst ` set ?fs \<union> set (releaseFiles st)"
          and files: "set (releaseFiles st) = fst ` set (writtenSoFar st)"
          and rel: "\<And>fd. fd \<in> set (writtenSoFar st) \<Longrightarrow> \<exists>entry \<in> set cats. releaseOf P entry fd"
          using p by (simp_all add: progressOk_def)
        have names: "\<exists>entry \<in> set cats. fst fd = releaseFileName P (fst entry)"
          if fd: "fd \<in> set (writtenSoFar st)" for fd
        proof -
          obtain entry where e: "entry \<in> set cats" "releaseOf P entry fd"
            using rel [OF fd] by blast
          from e(2) have "fst fd = releaseFileName P (fst entry)" by (auto simp: releaseOf_def)
          with e(1) show ?thesis by blast
        qed
        have every: "\<forall>entry \<in> set cats. \<not> writeFails E (releaseFileName P (fst entry))
               \<longrightarrow> releaseFileName P (fst entry) \<in> fst ` set (writtenSoFar st)"
          using generateReleases_written [of P E ?st0 "ownEntries cats" st] g r
          by (simp add: set_ownEntries)
        from writeCategories_cases [OF wc]
        have st': "fst ` set ?fs \<subseteq> fst ` set (releasesNow st')
            \<and> set (releaseFiles st') \<subseteq> fst ` set (writtenSoFar st')
            \<and> (\<forall>fd \<in> set (writtenSoFar st').
                  (\<exists>entry \<in> set cats. fst fd = releaseFileName P (fst entry))
                  \<or> fst fd = lit ''categories.json'')
            \<and> (\<forall>entry \<in> set cats. \<not> writeFails E (releaseFileName P (fst entry))
                  \<longrightarrow> releaseFileName P (fst entry) \<in> fst ` set (writtenSoFar st'))"
        proof
          assume "st' = st"
          with base files names every show ?thesis by auto
        next
          assume "\<exists>fd. indexOf P E cats (categoriesWithReleases st) fd
            \<and> st' = st\<lparr>releasesNow := putFile (fst fd) (snd fd) (releasesNow st),
                        writtenSoFar := writtenSoFar st @ [fd]\<rparr>"
          then obtain x where x: "indexOf P E cats (categoriesWithReleases st) x"
            and eq: "st' = st\<lparr>releasesNow := putFile (fst x) (snd x) (releasesNow st),
                        writtenSoFar := writtenSoFar st @ [x]\<rparr>"
            by blast
          have fx: "fst x = lit ''categories.json''" using x by (auto simp: indexOf_def)
          have a: "fst ` set ?fs \<subseteq> fst ` set (releasesNow st')"
            using eq base by (auto simp: putFile_names)
          have b: "set (releaseFiles st') \<subseteq> fst ` set (writtenSoFar st')"
            using eq files by auto
          have c: "\<forall>fd \<in> set (writtenSoFar st').
                  (\<exists>entry \<in> set cats. fst fd = releaseFileName P (fst entry))
                  \<or> fst fd = lit ''categories.json''"
            using eq fx names by auto
          have d: "\<forall>entry \<in> set cats. \<not> writeFails E (releaseFileName P (fst entry))
                  \<longrightarrow> releaseFileName P (fst entry) \<in> fst ` set (writtenSoFar st')"
            using eq every by auto
          from a b c d show ?thesis by simp
        qed
        with c out show ?thesis by blast
      qed
    qed
  qed
qed

lemma existingReleaseFiles_iff:
  "f \<in> set (existingReleaseFiles fs) \<longleftrightarrow>
     f \<in> fst ` set fs \<and> startsWith f (lit ''category-'') \<and> endsWith f (lit ''.json'')"
  by (auto simp: existingReleaseFiles_def)

lemma categoryAll_name:
  "lit ''category-all.json'' = releaseFileName P k \<Longrightarrow> categorySlug P k = lit ''all''"
proof -
  assume a: "lit ''category-all.json'' = releaseFileName P k"
  have "lit ''category-all.json'' = lit ''category-'' @ lit ''all'' @ lit ''.json''"
    by (simp add: lit_def)
  with a have "lit ''all'' @ lit ''.json'' = categorySlug P k @ lit ''.json''"
    by (simp add: releaseFileName_def)
  then show ?thesis by simp
qed

text \<open>
  C9 (as amended). After a run of generate-releases.js that found at least one metadata
  file and ended with exit code 0, every file that was in the releases directory, whose
  name starts with \<open>category-\<close> and ends with \<open>.json\<close>, that this run did not
  write and whose \<open>unlinkSync\<close> does not fail, has been removed and is no longer in
  the directory. The run writes no file named \<open>category-all.json\<close> when no category
  has the slug \<open>all\<close>: the consolidated document of the other script is then among
  these files.
\<close>

theorem obsolete_release_files_removed:
  assumes "foundFiles inp = Inr files" and "files \<noteq> []"
    and "exitCode (mainReleases P E inp (Some fs)) = 0"
  shows "(\<forall>f \<in> fst ` set fs.
            startsWith f (lit ''category-'') \<and> endsWith f (lit ''.json'')
            \<and> f \<notin> fst ` set (written (mainReleases P E inp (Some fs))) \<and> \<not> unlinkFails E f
            \<longrightarrow> f \<in> set (removed (mainReleases P E inp (Some fs)))
                \<and> (case releasesAfter (mainReleases P E inp (Some fs)) of
                      None \<Rightarrow> False
                    | Some fs' \<Rightarrow> f \<notin> fst ` set fs'))
       \<and> (\<forall>cats. categorize P [] files = Inr cats
                  \<and> (\<forall>entry \<in> set cats. categorySlug P (fst entry) \<noteq> lit ''all'')
            \<longrightarrow> lit ''category-all.json'' \<notin> fst ` set (written (mainReleases P E inp (Some fs))))"
proof -
  let ?run = "mainReleases P E inp (Some fs)"
  from mainReleases_completed [OF assms]
  obtain cats and st :: progress where c: "categorize P [] files = Inr cats"
    and w: "written ?run = writtenSoFar st"
    and rm: "removed ?run = snd (removeObsolete E (releaseFiles st)
                (existingReleaseFiles (releasesNow st)) (releasesNow st, []))"
    and after: "releasesAfter ?run = Some (fst (removeObsolete E (releaseFiles st)
                (existingReleaseFiles (releasesNow st)) (releasesNow st, [])))"
    and base: "fst ` set fs \<subseteq> fst ` set (releasesNow st)"
    and kept: "set (releaseFiles st) \<subseteq> fst ` set (writtenSoFar st)"
    and names: "\<forall>fd \<in> set (writtenSoFar st).
               (\<exists>entry \<in> set cats. fst fd = releaseFileName P (fst entry))
               \<or> fst fd = lit ''categories.json''"
    by auto
  let ?gone = "{f \<in> set (existingReleaseFiles (releasesNow st)).
                 f \<notin> set (releaseFiles st) \<and> \<not> unlinkFails E f}"
  have first: "f \<in> set (removed ?run)
                \<and> (case releasesAfter ?run of None \<Rightarrow> False | Some fs' \<Rightarrow> f \<notin> fst ` set fs')"
    if f: "f \<in> fst ` set fs" "startsWith f (lit ''category-'')" "endsWith f (lit ''.json'')"
      "f \<notin> fst ` set (written ?run)" "\<not> unlinkFails E f" for f
  proof -
    have "f \<in> set (existingReleaseFiles (releasesNow st))"
      using f(1,2,3) base by (auto simp: existingReleaseFiles_iff)
    moreover have "f \<notin> set (releaseFiles st)" using f(4) w kept by auto
    ultimately have gone: "f \<in> ?gone" using f(5) by simp
    have "set (removed ?run) = set [] \<union> ?gone"
      using removeObsolete_removed [of E "releaseFiles st" "existingReleaseFiles (releasesNow st)"
              "(releasesNow st, [])"] rm by simp
    with gone have a: "f \<in> set (removed ?run)" by simp
    have "fst (removeObsolete E (releaseFiles st) (existingReleaseFiles (releasesNow st))
                (releasesNow st, []))
            = filter (\<lambda>e. fst e \<notin> ?gone) (releasesNow st)"
      using removeObsolete_files [of E "releaseFiles st" "existingReleaseFiles (releasesNow st)"
              "(releasesNow st, [])"] by simp
    with after gone have "case releasesAfter ?run of None \<Rightarrow> False | Some fs' \<Rightarrow> f \<notin> fst ` set fs'"
      by auto
    with a show ?thesis by simp
  qed
  have second: "lit ''category-all.json'' \<notin> fst ` set (written ?run)"
    if cs: "categorize P [] files = Inr cats'"
      "\<forall>entry \<in> set cats'. categorySlug P (fst entry) \<noteq> lit ''all''" for cats'
  proof
    assume "lit ''category-all.json'' \<in> fst ` set (written ?run)"
    then obtain fd where fd: "fd \<in> set (writtenSoFar st)" "fst fd = lit ''category-all.json''"
      using w by auto
    have eq: "cats' = cats" using cs(1) c by simp
    have "lit ''category-all.json'' \<noteq> lit ''categories.json''" by (simp add: lit_def)
    with names fd obtain entry where "entry \<in> set cats"
      "lit ''category-all.json'' = releaseFileName P (fst entry)"
      by (metis)
    with cs(2) eq show False by (auto dest: categoryAll_name)
  qed
  from first second show ?thesis by blast
qed

theorem obsolete_release_files_removed_witness:
  "removed (mainReleases samplePlatform quietEnv threeApps (Some staleReleases))
     = [lit ''category-all.json'', lit ''category-old.json'']
   \<and> lit ''category-all.json''
       \<in> set (removed (mainReleases samplePlatform quietEnv threeApps (Some staleReleases)))
   \<and> (case releasesAfter (mainReleases samplePlatform quietEnv threeApps (Some staleReleases)) of
         None \<Rightarrow> False
       | Some fs' \<Rightarrow> lit ''category-all.json'' \<notin> fst ` set fs')"
proof -
  let ?run = "mainReleases samplePlatform quietEnv threeApps (Some staleReleases)"
  have v: "removed ?run = [lit ''category-all.json'', lit ''category-old.json'']
      \<and> exitCode ?run = 0
      \<and> lit ''category-all.json'' \<notin> set (map fst (written ?run))
      \<and> (case foundFiles threeApps of Inl e \<Rightarrow> False | Inr files \<Rightarrow> files \<noteq> [])"
    by code_simp
  then obtain files where f: "foundFiles threeApps = Inr files" "files \<noteq> []"
    by (cases "foundFiles threeApps") simp_all
  have s: "lit ''category-all.json'' \<in> fst ` set staleReleases"
    "startsWith (lit ''category-all.json'') (lit ''category-'')"
    "endsWith (lit ''category-all.json'') (lit ''.json'')"
    "\<not> unlinkFails quietEnv (lit ''category-all.json'')"
    by (simp_all add: staleReleases_def startsWith_def endsWith_def lit_def quietEnv_def)
  from v have e: "exitCode ?run = 0" by simp
  from v have n: "lit ''category-all.json'' \<notin> fst ` set (written ?run)" by simp
  from obsolete_release_files_removed [OF f e]
  have "\<forall>f \<in> fst ` set staleReleases.
            startsWith f (lit ''category-'') \<and> endsWith f (lit ''.json'')
            \<and> f \<notin> fst ` set (written ?run) \<and> \<not> unlinkFails quietEnv f
            \<longrightarrow> f \<in> set (removed ?run)
                \<and> (case releasesAfter ?run of None \<Rightarrow> False | Some fs' \<Rightarrow> f \<notin> fst ` set fs')"
    by (rule conjunct1)
  from bspec [OF this s(1)] s(2,3,4) n
  have "lit ''category-all.json'' \<in> set (removed ?run)
      \<and> (case releasesAfter ?run of None \<Rightarrow> False
           | Some fs' \<Rightarrow> lit ''category-all.json'' \<notin> fst ` set fs')"
    by blast
  with v show ?thesis by simp
qed

theorem stale_files_kept_counterexample:
  "foundFiles threeApps \<noteq> Inr [] \<and> \<not> isl (foundFiles threeApps)
   \<and> exitCode (mainReleases samplePlatform unlinkRefusedEnv threeApps (Some staleReleases)) = 0
   \<and> removed (mainReleases samplePlatform unlinkRefusedEnv threeApps (Some staleReleases)) = []
   \<and> (case releasesAfter (mainReleases samplePlatform unlinkRefusedEnv threeApps (Some staleReleases)) of
         None \<Rightarrow> False
       | Some fs \<Rightarrow> lit ''category-old.json'' \<in> set (map fst fs)
                     \<and> lit ''category-all.json'' \<in> set (map fst fs))
   \<and> foundFiles constructorCategory \<noteq> Inr [] \<and> \<not> isl (foundFiles constructorCategory)
   \<and> mainReleases samplePlatform quietEnv constructorCategory (Some staleReleases)
     = \<lparr>exitCode = 1, written = [], removed = [], releasesAfter = Some staleReleases\<rparr>"
  by code_simp

lemma categoryTimestamp_valid:
  assumes vc: "\<And>p. validDate (clock E p)"
  shows "\<exists>t. getLastCommitTimestampForCategory P E c = Inr t \<and> validDate t"
proof -
  let ?p = "categoryFilePath P c"
  have cur: "currentTime E ?p = Inr (clock E ?p)" using vc by (rule currentTime_valid)
  show ?thesis
  proof (cases "uncommittedChanges E ?p")
    case (Some t)
    then have "t = clock E ?p"
      using cur by (auto simp: uncommittedChanges_def split: sum.splits bool.splits)
    with Some vc show ?thesis by (simp add: getLastCommitTimestampForCategory_def Let_def)
  next
    case None
    show ?thesis
    proof (cases "logTimestamp E ?p")
      case (Inl e)
      with None cur vc show ?thesis by (simp add: getLastCommitTimestampForCategory_def Let_def)
    next
      case (Inr t)
      then have "validDate t"
        using cur vc
        by (auto simp: logTimestamp_def toISOString_def
                 split: sum.splits log_stdout.splits option.splits if_splits)
      with None Inr show ?thesis by (simp add: getLastCommitTimestampForCategory_def Let_def)
    qed
  qed
qed

lemma categoryDataOf_total:
  assumes vc: "\<And>p. validDate (clock E p)" and k: "k \<in> fst ` set cats"
  shows "\<exists>c. categoryDataOf P E cats k = Inr c"
proof -
  obtain t where t: "getLastCommitTimestampForCategory P E k = Inr t" "validDate t"
    using categoryTimestamp_valid [OF vc] by blast
  obtain as where "map_of cats k = Some as"
    using k by (cases "map_of cats k") (auto simp: map_of_eq_None_iff)
  with t show ?thesis by (simp add: categoryDataOf_def toISOString_def)
qed

lemma writeCategories_total:
  assumes vc: "\<And>p. validDate (clock E p)" and sub: "set (categoriesWithReleases st) \<subseteq> fst ` set cats"
  shows "\<exists>st'. writeCategories P E cats st = Inr st'"
proof (cases "categoriesWithReleases st = []")
  case True
  then show ?thesis by (simp add: writeCategories_def)
next
  case ne: False
  have "\<exists>cds. mapE (categoryDataOf P E cats) (categoriesWithReleases st) = Inr cds"
  proof (rule mapE_total)
    show "\<exists>c. categoryDataOf P E cats k = Inr c" if "k \<in> set (categoriesWithReleases st)" for k
      using vc that sub by (intro categoryDataOf_total) auto
  qed
  then obtain cds where cds: "mapE (categoryDataOf P E cats) (categoriesWithReleases st) = Inr cds"
    by blast
  have "\<exists>zs. arraySort (\<lambda>a b. Inr (localeCompare P (cdName a) (cdName b))) cds = Inr zs"
    by (rule arraySort_total) simp
  then obtain zs where zs: "arraySort (\<lambda>a b. Inr (localeCompare P (cdName a) (cdName b))) cds = Inr zs"
    by blast
  show ?thesis
    using ne cds zs
    by (cases "writeFails E (lit ''categories.json'')")
       (simp_all add: writeCategories_def writeFileSync_def Let_def)
qed

lemma generateRelease_isl: "isl (generateRelease P E st entry) = (\<not> releasable P entry)"
  by (simp add: generateRelease_def releasable_def writeFileSync_def Let_def
           split: sum.splits)

lemma generateReleases_error:
  "(snd (generateReleases P E st entries) = None) = list_all (releasable P) entries"
proof (induction entries arbitrary: st)
  case Nil
  show ?case by simp
next
  case (Cons entry entries)
  show ?case
  proof (cases "generateRelease P E st entry")
    case (Inl e)
    then have "\<not> releasable P entry" using generateRelease_isl [of P E st entry] by simp
    with Inl show ?thesis by simp
  next
    case (Inr st1)
    then have "releasable P entry" using generateRelease_isl [of P E st entry] by simp
    with Inr Cons.IH [of st1] show ?thesis by simp
  qed
qed

lemma mainReleases_exitCode:
  assumes vc: "\<And>p. validDate (clock E p)"
  shows "exitCode (mainReleases P E inp rel) = 0 \<longleftrightarrow>
     (\<not> isl (joinValidCategories P (loadValidCategories (categoriesJson inp)))
      \<and> (\<exists>files. foundFiles inp = Inr files
            \<and> (files = []
               \<or> (\<exists>cats. categorize P [] files = Inr cats
                     \<and> \<not> (rel = None \<and> mkdirFails E)
                     \<and> list_all (releasable P) (ownEntries cats)
                     \<and> \<not> readdirFails E))))"
proof (cases "joinValidCategories P (loadValidCategories (categoriesJson inp))")
  case (Inl e)
  then show ?thesis by (simp add: mainReleases_def)
next
  case j: (Inr v)
  show ?thesis
  proof (cases "foundFiles inp")
    case (Inl e)
    with j show ?thesis by (simp add: mainReleases_def)
  next
    case f: (Inr files)
    show ?thesis
    proof (cases "files = []")
      case True
      with j f show ?thesis by (simp add: mainReleases_def)
    next
      case ne: False
      show ?thesis
      proof (cases "categorize P [] files")
        case (Inl e)
        with j f ne show ?thesis by (simp add: mainReleases_def)
      next
        case c: (Inr cats)
        show ?thesis
        proof (cases "rel = None \<and> mkdirFails E")
          case True
          with j f ne c show ?thesis by (simp add: mainReleases_def)
        next
          case mk: False
          let ?fs = "case rel of None \<Rightarrow> [] | Some fs \<Rightarrow> fs"
          let ?st0 = "\<lparr>releasesNow = ?fs, releaseFiles = [], categoriesWithReleases = [], writtenSoFar = []\<rparr>"
          obtain st r where g: "generateReleases P E ?st0 (ownEntries cats) = (st, r)"
            by (cases "generateReleases P E ?st0 (ownEntries cats)")
          have err: "(r = None) = list_all (releasable P) (ownEntries cats)"
            using generateReleases_error [of P E ?st0 "ownEntries cats"] g by simp
          have "progressOk P (fst ` set ?fs) ({} \<union> set (ownEntries cats)) st"
            using progressOk_initial g by (rule generateReleases_progress)
          then have sub: "set (categoriesWithReleases st) \<subseteq> fst ` set cats"
            by (simp add: progressOk_def set_ownEntries)
          show ?thesis
          proof (cases r)
            case (Some e)
            with j f ne c mk g err show ?thesis by (simp add: mainReleases_def crashed_def)
          next
            case None
            obtain st' where wc: "writeCategories P E cats st = Inr st'"
              using writeCategories_total [OF vc sub] by blast
            show ?thesis
              using j f ne c mk g err None wc
              by (cases "readdirFails E") (simp_all add: mainReleases_def crashed_def Let_def)
          qed
        qed
      qed
    qed
  qed
qed

text \<open>
  C6 (as amended). generate-category-all.json.js ends with exit code 0 exactly when it read
  no app, or when the grouping of the apps does not throw and category-all.json can be
  written: a failed write of that file gives a non-zero exit code. The exit code of
  generate-releases.js does not depend on which writes fail (the clock being within the
  range of dates): a failed write of a release file or of categories.json is logged and the
  run goes on, so that a run that reaches its end has written the release file of every
  category whose write did not fail. Any exception that reaches the handler of \<open>main\<close>
  gives exit code 1.
\<close>

theorem exit_code_of_runs:
  "(exitCode (mainAll P E inp rel) = 0 \<longleftrightarrow>
      (readAllMetadataFiles E (repositories inp) = []
       \<or> (\<not> isl (organizeAppsByCategory P (readAllMetadataFiles E (repositories inp)))
           \<and> rel \<noteq> None \<and> \<not> writeFails E (lit ''category-all.json''))))
   \<and> ((\<forall>p. validDate (clock E p))
        \<longrightarrow> exitCode (mainReleases P (E\<lparr>writeFails := w\<rparr>) inp rel)
            = exitCode (mainReleases P E inp rel))
   \<and> (\<forall>files cats. foundFiles inp = Inr files \<and> files \<noteq> [] \<and> categorize P [] files = Inr cats
          \<and> exitCode (mainReleases P E inp rel) = 0
        \<longrightarrow> (\<forall>entry \<in> set cats. \<not> writeFails E (releaseFileName P (fst entry))
              \<longrightarrow> releaseFileName P (fst entry)
                    \<in> fst ` set (written (mainReleases P E inp rel))))"
proof (intro conjI impI allI ballI)
  show "exitCode (mainAll P E inp rel) = 0 \<longleftrightarrow>
      (readAllMetadataFiles E (repositories inp) = []
       \<or> (\<not> isl (organizeAppsByCategory P (readAllMetadataFiles E (repositories inp)))
           \<and> rel \<noteq> None \<and> \<not> writeFails E (lit ''category-all.json'')))"
    by (rule mainAll_exitCode)
next
  assume vc: "\<forall>p. validDate (clock E p)"
  have a: "exitCode (mainReleases P E inp rel) = 0 \<longleftrightarrow>
             exitCode (mainReleases P (E\<lparr>writeFails := w\<rparr>) inp rel) = 0"
    using vc mainReleases_exitCode [of E P inp rel]
      mainReleases_exitCode [of "E\<lparr>writeFails := w\<rparr>" P inp rel]
    by simp
  have b: "exitCode (mainReleases P F inp rel) = 0 \<or> exitCode (mainReleases P F inp rel) = 1" for F
    by (simp add: mainReleases_def crashed_def Let_def split: sum.splits prod.splits option.splits)
  from a b [of E] b [of "E\<lparr>writeFails := w\<rparr>"]
  show "exitCode (mainReleases P (E\<lparr>writeFails := w\<rparr>) inp rel) = exitCode (mainReleases P E inp rel)"
    by auto
next
  fix files cats entry
  assume h: "foundFiles inp = Inr files \<and> files \<noteq> [] \<and> categorize P [] files = Inr cats
          \<and> exitCode (mainReleases P E inp rel) = 0"
    and entry: "entry \<in> set cats" "\<not> writeFails E (releaseFileName P (fst entry))"
  from h have f: "foundFiles inp = Inr files" and ne: "files \<noteq> []"
    and c: "categorize P [] files = Inr cats" and ok: "exitCode (mainReleases P E inp rel) = 0"
    by simp_all
  from mainReleases_completed [OF f ne ok]
  obtain cats' and st :: progress where c': "categorize P [] files = Inr cats'"
    and w: "written (mainReleases P E inp rel) = writtenSoFar st"
    and every: "\<forall>entry \<in> set cats'. \<not> writeFails E (releaseFileName P (fst entry))
               \<longrightarrow> releaseFileName P (fst entry) \<in> fst ` set (writtenSoFar st)"
    by auto
  from c c' have "cats' = cats" by simp
  with every entry w
  show "releaseFileName P (fst entry) \<in> fst ` set (written (mainReleases P E inp rel))"
    by simp
qed

theorem exit_code_of_runs_witness:
  "exitCode (mainAll samplePlatform quietEnv threeApps None) \<noteq> 0
   \<and> exitCode (mainAll samplePlatform quietEnv threeApps (Some [])) = 0
   \<and> exitCode (mainReleases samplePlatform (quietEnv\<lparr>writeFails := (\<lambda>f. True)\<rparr>) threeApps (Some [])) = 0"
proof -
  have v: "readAllMetadataFiles quietEnv (repositories threeApps) \<noteq> []
      \<and> \<not> isl (organizeAppsByCategory samplePlatform (readAllMetadataFiles quietEnv (repositories threeApps)))
      \<and> exitCode (mainReleases samplePlatform quietEnv threeApps (Some [])) = 0"
    by code_simp
  have q: "\<forall>p. validDate (clock quietEnv p)" "\<not> writeFails quietEnv (lit ''category-all.json'')"
    by (simp_all add: quietEnv_def validDate_def)
  have a: "exitCode (mainAll samplePlatform quietEnv threeApps None) \<noteq> 0"
    "exitCode (mainAll samplePlatform quietEnv threeApps (Some [])) = 0"
    using exit_code_of_runs [of samplePlatform quietEnv threeApps None "\<lambda>f. True"]
      exit_code_of_runs [of samplePlatform quietEnv threeApps "Some []" "\<lambda>f. True"] v q
    by simp_all
  have "exitCode (mainReleases samplePlatform (quietEnv\<lparr>writeFails := (\<lambda>f. True)\<rparr>) threeApps (Some []))
          = exitCode (mainReleases samplePlatform quietEnv threeApps (Some []))"
    using exit_code_of_runs [of samplePlatform quietEnv threeApps "Some []" "\<lambda>f. True"] q(1)
    by blast
  with a v show ?thesis by simp
qed

theorem exit_code_counterexample:
  "mainReleases samplePlatform quietEnv lockedDirectory (Some [])
     = \<lparr>exitCode = 1, written = [], removed = [], releasesAfter = Some []\<rparr>
   \<and> \<not> writeFails quietEnv (lit ''category-tools.json'')
   \<and> \<not> writeFails quietEnv (lit ''categories.json'')"
  by code_simp

end
